theory Spec2Isabelle
  imports Complex_Main
begin

section \<open>Values that reach \<open>get_first_digit\<close>\<close>

text \<open>
  \<open>benford_analysis.py\<close> reads one spreadsheet column with pandas and maps
  \<open>get_first_digit\<close> over its cells.  A cell is a Python object: \<open>None\<close>, \<open>NaT\<close>,
  a \<open>bool\<close>, an unbounded \<open>int\<close>, a \<open>float\<close> (an IEEE-754 binary64 value), a
  \<open>str\<close>, or a date/time object.

  A finite binary64 value is kept exactly, as sign, mantissa and binary exponent: its value
  is \<open>(-1)^s * m * 2^e\<close>.  A genuine double has \<open>m < 2^53\<close> and
  \<open>-1074 \<le> e \<le> 971\<close>.
\<close>

datatype pyfloat = Finite bool nat int | Infinity bool | NaN

datatype pyval =
    PNone
  | PNaT
  | PBool bool
  | PInt int
  | PFloat pyfloat
  | PStr string
  | PDatetime string

text \<open>The exceptions the modelled statements can raise; each is a subclass of Python's
  \<open>Exception\<close>.\<close>

datatype py_exc = TypeError | ValueError | OverflowError | KeyError

definition float_val :: "pyfloat \<Rightarrow> rat" where
  "float_val f = (case f of
      Finite s m e \<Rightarrow> (if s then - 1 else 1) * of_nat m * 2 powi e
    | _ \<Rightarrow> 0)"

definition is_double :: "pyfloat \<Rightarrow> bool" where
  "is_double f = (case f of
      Finite s m e \<Rightarrow> m < 2 ^ 53 \<and> - 1074 \<le> e \<and> e \<le> 971
    | _ \<Rightarrow> True)"

section \<open>Correctly rounded conversion to binary64\<close>

text \<open>\<open>int.bit_length\<close>.\<close>

fun bit_length :: "nat \<Rightarrow> nat" where
  "bit_length n = (if n = 0 then 0 else Suc (bit_length (n div 2)))"

declare bit_length.simps [simp del]

text \<open>The quotient \<open>a / b\<close> rounded to the nearest integer, ties to even.\<close>

definition rhe_div :: "nat \<Rightarrow> nat \<Rightarrow> nat" where
  "rhe_div a b =
     (let q = a div b; r = a mod b
      in if b < 2 * r \<or> (2 * r = b \<and> odd q) then q + 1 else q)"

text \<open>\<open>\<lfloor>log\<^sub>2 (a / b)\<rfloor>\<close> for positive \<open>a\<close>, \<open>b\<close>, from the two bit lengths and one
  comparison.\<close>

definition floor_log2 :: "nat \<Rightarrow> nat \<Rightarrow> int" where
  "floor_log2 a b =
     (let d = int (bit_length a) - int (bit_length b)
      in if b * 2 ^ nat d \<le> a * 2 ^ nat (- d) then d else d - 1)"

text \<open>
  The binary64 value nearest to \<open>\<plusminus> a / b\<close> (round to nearest, ties to even), the rounding
  of every IEEE-754 basic operation, of \<open>float(int)\<close> and of a decimal literal.
  The exponent is that of a 53-bit mantissa, but never below the subnormal exponent
  \<open>-1074\<close>; a result of \<open>2^1024\<close> or more is infinite.
\<close>

definition round_to_double :: "bool \<Rightarrow> nat \<Rightarrow> nat \<Rightarrow> pyfloat" where
  "round_to_double s a b =
     (if a = 0 then Finite s 0 0
      else
        let t = floor_log2 a b;
            e = max (t - 52) (- 1074);
            m = rhe_div (a * 2 ^ nat (- e)) (b * 2 ^ nat e)
        in if 971 < e \<or> (e = 971 \<and> 2 ^ 53 \<le> m) then Infinity s else Finite s m e)"

text \<open>\<open>float(n)\<close> for a Python \<open>int\<close>: correctly rounded, and \<open>OverflowError\<close> when the
  result is out of range.\<close>

definition float_of_int :: "int \<Rightarrow> py_exc + pyfloat" where
  "float_of_int n =
     (case round_to_double (n < 0) (nat \<bar>n\<bar>) 1 of
        Infinity s \<Rightarrow> Inl OverflowError
      | f \<Rightarrow> Inr f)"

section \<open>Fixed-point formatting\<close>

definition digit_chars :: string where
  "digit_chars = ''0123456789''"

definition digit_char :: "nat \<Rightarrow> char" where
  "digit_char d = digit_chars ! d"

text \<open>The decimal numeral of a natural number, without leading zeros.\<close>

fun show_nat :: "nat \<Rightarrow> string" where
  "show_nat n =
     (if n < 10 then [digit_char n] else show_nat (n div 10) @ [digit_char (n mod 10)])"

declare show_nat.simps [simp del]

definition zfill :: "nat \<Rightarrow> string \<Rightarrow> string" where
  "zfill k s = replicate (k - length s) (CHR ''0'') @ s"

text \<open>\<open>scaled p m e\<close> is \<open>m * 2^e * 10^p\<close> rounded to the nearest integer, ties to
  even: the digits that a correctly rounded \<open>'{:.pf}'\<close> prints.\<close>

definition scaled :: "nat \<Rightarrow> nat \<Rightarrow> int \<Rightarrow> nat" where
  "scaled p m e = rhe_div (m * 10 ^ p * 2 ^ nat e) (2 ^ nat (- e))"

text \<open>\<open>'{:.pf}'.format(x)\<close> for a \<open>float\<close>.\<close>

definition format_f :: "nat \<Rightarrow> pyfloat \<Rightarrow> string" where
  "format_f p f = (case f of
      Finite s m e \<Rightarrow>
        (let q = scaled p m e
         in (if s then ''-'' else '''') @ show_nat (q div 10 ^ p) @
            (if p = 0 then '''' else ''.'' @ zfill p (show_nat (q mod 10 ^ p))))
    | Infinity s \<Rightarrow> (if s then ''-inf'' else ''inf'')
    | NaN \<Rightarrow> ''nan'')"

section \<open>The operations \<open>get_first_digit\<close> applies to a cell\<close>

text \<open>\<open>pd.isna\<close> on a scalar.\<close>

fun pd_isna :: "pyval \<Rightarrow> bool" where
  "pd_isna PNone = True"
| "pd_isna PNaT = True"
| "pd_isna (PFloat NaN) = True"
| "pd_isna _ = False"

fun fabs :: "pyfloat \<Rightarrow> pyfloat" where
  "fabs (Finite s m e) = Finite False m e"
| "fabs (Infinity s) = Infinity False"
| "fabs NaN = NaN"

text \<open>The builtin \<open>abs\<close>: defined on numbers (a \<open>bool\<close> is the \<open>int\<close> 0 or 1), a
  \<open>TypeError\<close> on everything else.\<close>

fun py_abs :: "pyval \<Rightarrow> py_exc + pyval" where
  "py_abs (PInt n) = Inr (PInt \<bar>n\<bar>)"
| "py_abs (PBool b) = Inr (PInt (if b then 1 else 0))"
| "py_abs (PFloat f) = Inr (PFloat (fabs f))"
| "py_abs _ = Inl TypeError"

text \<open>The comparison \<open>n_abs == 0\<close>.\<close>

fun py_eq_zero :: "pyval \<Rightarrow> bool" where
  "py_eq_zero (PInt n) = (n = 0)"
| "py_eq_zero (PBool b) = (\<not> b)"
| "py_eq_zero (PFloat (Finite s m e)) = (m = 0)"
| "py_eq_zero _ = False"

text \<open>\<open>"{:.15f}".format(v)\<close>: an \<open>int\<close> is converted to \<open>float\<close> first.\<close>

fun py_format_15f :: "pyval \<Rightarrow> py_exc + string" where
  "py_format_15f (PInt n) =
     (case float_of_int n of Inl x \<Rightarrow> Inl x | Inr f \<Rightarrow> Inr (format_f 15 f))"
| "py_format_15f (PBool b) =
     (case float_of_int (if b then 1 else 0) of Inl x \<Rightarrow> Inl x | Inr f \<Rightarrow> Inr (format_f 15 f))"
| "py_format_15f (PFloat f) = Inr (format_f 15 f)"
| "py_format_15f (PStr s) = Inl ValueError"
| "py_format_15f _ = Inl TypeError"

text \<open>\<open>s.replace('.', '')\<close> and \<open>s.lstrip('0')\<close>.\<close>

definition remove_dots :: "string \<Rightarrow> string" where
  "remove_dots s = filter (\<lambda>c. c \<noteq> CHR ''.'') s"

definition lstrip_zeros :: "string \<Rightarrow> string" where
  "lstrip_zeros s = dropWhile (\<lambda>c. c = CHR ''0'') s"

text \<open>\<open>int(c)\<close> for a one-character string: its digit value, or \<open>ValueError\<close>.\<close>

fun index_of :: "char \<Rightarrow> string \<Rightarrow> nat option" where
  "index_of c [] = None"
| "index_of c (x # xs) =
     (if c = x then Some 0 else map_option Suc (index_of c xs))"

definition py_int_char :: "char \<Rightarrow> py_exc + nat" where
  "py_int_char c = (case index_of c digit_chars of None \<Rightarrow> Inl ValueError | Some d \<Rightarrow> Inr d)"

section \<open>\<open>get_first_digit\<close>\<close>

text \<open>The \<open>try\<close> block (source lines 9 to 26).\<close>

definition get_first_digit_body :: "pyval \<Rightarrow> py_exc + nat option" where
  "get_first_digit_body n =
     (if pd_isna n then Inr None
      else (case py_abs n of
        Inl x \<Rightarrow> Inl x
      | Inr n_abs \<Rightarrow>
          (if py_eq_zero n_abs then Inr None
           else (case py_format_15f n_abs of
             Inl x \<Rightarrow> Inl x
           | Inr s0 \<Rightarrow>
               (case lstrip_zeros (remove_dots s0) of
                  [] \<Rightarrow> Inr None
                | c # cs \<Rightarrow>
                    (case py_int_char c of Inl x \<Rightarrow> Inl x | Inr d \<Rightarrow> Inr (Some d)))))))"

text \<open>The whole function: \<open>except Exception\<close> turns every exception of the body into
  \<open>None\<close>.\<close>

definition get_first_digit :: "pyval \<Rightarrow> nat option" where
  "get_first_digit n = (case get_first_digit_body n of Inl x \<Rightarrow> None | Inr r \<Rightarrow> r)"

section \<open>Binary64 arithmetic\<close>

text \<open>The double nearest to \<open>\<plusminus> (m1 * 2^e1) / (m2 * 2^e2)\<close>.\<close>

definition round_scaled :: "bool \<Rightarrow> nat \<Rightarrow> int \<Rightarrow> nat \<Rightarrow> int \<Rightarrow> pyfloat" where
  "round_scaled s m1 e1 m2 e2 =
     round_to_double s (m1 * 2 ^ nat (e1 - e2)) (m2 * 2 ^ nat (e2 - e1))"

fun fneg :: "pyfloat \<Rightarrow> pyfloat" where
  "fneg (Finite s m e) = Finite (\<not> s) m e"
| "fneg (Infinity s) = Infinity (\<not> s)"
| "fneg NaN = NaN"

text \<open>IEEE-754 multiplication, division and addition, round to nearest even.\<close>

fun fmul :: "pyfloat \<Rightarrow> pyfloat \<Rightarrow> pyfloat" where
  "fmul (Finite s1 m1 e1) (Finite s2 m2 e2) = round_scaled (s1 \<noteq> s2) (m1 * m2) (e1 + e2) 1 0"
| "fmul (Finite s1 m1 e1) (Infinity s2) = (if m1 = 0 then NaN else Infinity (s1 \<noteq> s2))"
| "fmul (Infinity s1) (Finite s2 m2 e2) = (if m2 = 0 then NaN else Infinity (s1 \<noteq> s2))"
| "fmul (Infinity s1) (Infinity s2) = Infinity (s1 \<noteq> s2)"
| "fmul _ _ = NaN"

fun fdiv :: "pyfloat \<Rightarrow> pyfloat \<Rightarrow> pyfloat" where
  "fdiv (Finite s1 m1 e1) (Finite s2 m2 e2) =
     (if m2 = 0 then (if m1 = 0 then NaN else Infinity (s1 \<noteq> s2))
      else round_scaled (s1 \<noteq> s2) m1 e1 m2 e2)"
| "fdiv (Finite s1 m1 e1) (Infinity s2) = Finite (s1 \<noteq> s2) 0 0"
| "fdiv (Infinity s1) (Finite s2 m2 e2) = Infinity (s1 \<noteq> s2)"
| "fdiv _ _ = NaN"

fun fadd :: "pyfloat \<Rightarrow> pyfloat \<Rightarrow> pyfloat" where
  "fadd (Finite s1 m1 e1) (Finite s2 m2 e2) =
     (let e = min e1 e2;
          k = (if s1 then - 1 else 1) * int m1 * 2 ^ nat (e1 - e)
            + (if s2 then - 1 else 1) * int m2 * 2 ^ nat (e2 - e)
      in if k = 0 then Finite (s1 \<and> s2) 0 0
         else round_scaled (k < 0) (nat \<bar>k\<bar>) e 1 0)"
| "fadd (Finite s1 m1 e1) (Infinity s2) = Infinity s2"
| "fadd (Infinity s1) (Finite s2 m2 e2) = Infinity s1"
| "fadd (Infinity s1) (Infinity s2) = (if s1 = s2 then Infinity s1 else NaN)"
| "fadd _ _ = NaN"

definition fsub :: "pyfloat \<Rightarrow> pyfloat \<Rightarrow> pyfloat" where
  "fsub x y = fadd x (fneg y)"

text \<open>The conversion of a count (NumPy \<open>int64\<close>, Python \<open>int\<close>) to binary64.\<close>

definition double_of_nat :: "nat \<Rightarrow> pyfloat" where
  "double_of_nat n = round_to_double False n 1"

text \<open>NumPy's \<open>true_divide\<close> of an \<open>int64\<close> by an integer: both operands become doubles,
  then one IEEE division.\<close>

definition np_true_divide :: "nat \<Rightarrow> nat \<Rightarrow> pyfloat" where
  "np_true_divide c n = fdiv (double_of_nat c) (double_of_nat n)"

section \<open>The analysis (\<open>main\<close>, source lines 60 to 86)\<close>

text \<open>\<open>df[col].apply(get_first_digit).dropna()\<close>: the digits of the cells that have
  one, in column order.\<close>

definition first_digits :: "pyval list \<Rightarrow> nat list" where
  "first_digits col = List.map_filter get_first_digit col"

text \<open>\<open>Series.value_counts()\<close>: a count for each value that occurs.\<close>

definition value_counts :: "nat list \<Rightarrow> (nat \<rightharpoonup> nat)" where
  "value_counts xs = (\<lambda>d. if d \<in> set xs then Some (count_list xs d) else None)"

text \<open>Lines 78 to 80: \<open>for i in range(1, 10): if i not in index: digit_counts[i] = 0\<close>.\<close>

definition ensure_digits :: "(nat \<rightharpoonup> nat) \<Rightarrow> (nat \<rightharpoonup> nat)" where
  "ensure_digits dc = fold (\<lambda>i m. if m i = None then m(i \<mapsto> 0) else m) [1..<10] dc"

definition digit_counts :: "nat list \<Rightarrow> (nat \<rightharpoonup> nat)" where
  "digit_counts ds = ensure_digits (value_counts ds)"

text \<open>Line 83: \<open>actual_freq = digit_counts / total_count\<close>, elementwise.\<close>

definition actual_freq :: "(nat \<rightharpoonup> nat) \<Rightarrow> nat \<Rightarrow> (nat \<rightharpoonup> pyfloat)" where
  "actual_freq dc total_count = (\<lambda>d. map_option (\<lambda>c. np_true_divide c total_count) (dc d))"

text \<open>
  Line 86: \<open>{d: math.log10(1 + 1/d) for d in range(1, 10)}\<close>.  \<open>1/d\<close> is the correctly
  rounded quotient of two \<open>int\<close>s (\<open>d\<close> is never 0 in this range), \<open>1 + \<dots>\<close> a
  binary64 addition.  \<open>math.log10\<close> is the C library's function: its code is not part of
  the program, so it is the parameter \<open>log10\<close>.
\<close>

definition benford_arg :: "nat \<Rightarrow> pyfloat" where
  "benford_arg d = fadd (double_of_nat 1) (round_to_double False 1 d)"

definition benford_freq :: "(pyfloat \<Rightarrow> pyfloat) \<Rightarrow> (nat \<rightharpoonup> pyfloat)" where
  "benford_freq log10 = (\<lambda>d. if d \<in> set [1..<10] then Some (log10 (benford_arg d)) else None)"

section \<open>The report and the chart (source lines 88 to 129)\<close>

record report_row =
  row_digit :: nat
  row_count :: nat
  row_act_p :: pyfloat
  row_ben_p :: pyfloat
  row_diff :: pyfloat

record report =
  analyzed_file :: string
  column_analyzed :: string
  total_valid_entries :: nat
  report_table :: "report_row list"

record chart =
  actual_values :: "pyfloat list"
  benford_values :: "pyfloat list"

text \<open>A lookup \<open>m[d]\<close>, which raises \<open>KeyError\<close> on a missing key.\<close>

definition getitem :: "('k \<rightharpoonup> 'v) \<Rightarrow> 'k \<Rightarrow> py_exc + 'v" where
  "getitem m k = (case m k of None \<Rightarrow> Inl KeyError | Some v \<Rightarrow> Inr v)"

definition hundred :: pyfloat where
  "hundred = double_of_nat 100"

text \<open>One pass of the loop of lines 99 to 104.\<close>

definition make_row ::
  "(nat \<rightharpoonup> nat) \<Rightarrow> (nat \<rightharpoonup> pyfloat) \<Rightarrow> (nat \<rightharpoonup> pyfloat) \<Rightarrow> nat \<Rightarrow> py_exc + report_row" where
  "make_row dc af bf d =
     (case getitem dc d of Inl x \<Rightarrow> Inl x | Inr c \<Rightarrow>
     (case getitem af d of Inl x \<Rightarrow> Inl x | Inr a \<Rightarrow>
     (case getitem bf d of Inl x \<Rightarrow> Inl x | Inr b \<Rightarrow>
        (let act = fmul a hundred; ben = fmul b hundred
         in Inr \<lparr>row_digit = d, row_count = c, row_act_p = act, row_ben_p = ben,
                 row_diff = fsub act ben\<rparr>))))"

text \<open>A loop or comprehension whose body may raise: the first exception ends it.\<close>

fun map_raise :: "('a \<Rightarrow> py_exc + 'b) \<Rightarrow> 'a list \<Rightarrow> py_exc + 'b list" where
  "map_raise f [] = Inr []"
| "map_raise f (x # xs) =
     (case f x of Inl e \<Rightarrow> Inl e | Inr y \<Rightarrow>
     (case map_raise f xs of Inl e \<Rightarrow> Inl e | Inr ys \<Rightarrow> Inr (y # ys)))"

definition percent_of :: "(nat \<rightharpoonup> pyfloat) \<Rightarrow> nat \<Rightarrow> py_exc + pyfloat" where
  "percent_of m d = (case getitem m d of Inl x \<Rightarrow> Inl x | Inr v \<Rightarrow> Inr (fmul v hundred))"

section \<open>The program \<open>main\<close>\<close>

text \<open>
  What the run touches: the directories and files that exist, and the console.  A file
  holds what was written to it, or is some other file that was there before the run.  A
  line printed to the console is kept as the statement that printed it, with the values it
  interpolates.  Writing a file (\<open>open\<close>, \<open>savefig\<close>) is taken to succeed.
\<close>

datatype file_content = ReportFile report | ChartFile chart | OtherFile string

datatype message =
    Starting
  | CreatedDirectory string
  | DataLoaded
  | ErrorLoadingExcel string
  | AmountNotFoundUsingAbsolute
  | NeitherColumnFound
  | AvailableColumns "string list"
  | ProcessingColumn string
  | NoValidNumericData
  | TotalValidEntries nat
  | ReportSavedTo string
  | ChartSavedTo string

record world =
  dirs :: "string set"
  files :: "string \<rightharpoonup> file_content"
  console :: "message list"

definition print :: "message \<Rightarrow> world \<Rightarrow> world" where
  "print m w = w\<lparr>console := console w @ [m]\<rparr>"

text \<open>\<open>os.path.exists\<close>, true of a directory and of any other file, and
  \<open>os.makedirs\<close>.\<close>

definition path_exists :: "world \<Rightarrow> string \<Rightarrow> bool" where
  "path_exists w p = (p \<in> dirs w \<or> files w p \<noteq> None)"

definition makedirs :: "string \<Rightarrow> world \<Rightarrow> world" where
  "makedirs p w = w\<lparr>dirs := insert p (dirs w)\<rparr>"

definition write_file :: "string \<Rightarrow> file_content \<Rightarrow> world \<Rightarrow> world" where
  "write_file p c w = w\<lparr>files := (files w)(p \<mapsto> c)\<rparr>"

definition path_join :: "string \<Rightarrow> string \<Rightarrow> string" where
  "path_join d f = d @ ''/'' @ f"

text \<open>A loaded table: its columns in order, each a name and its cells.\<close>

type_synonym dataframe = "(string \<times> pyval list) list"

definition columns :: "dataframe \<Rightarrow> string list" where
  "columns df = map fst df"

text \<open>
  How a run ends.  The program has no exception classes of its own: each of its three
  early \<open>return\<close>s is named after the error the specification gives it, and \<open>Raised\<close> is
  an exception that leaves \<open>main\<close>.
\<close>

datatype outcome = Completed | LoadError | ColumnNotFoundError | NoDataError | Raised py_exc

text \<open>Lines 88 to 129, once the frequencies are known.\<close>

definition write_outputs ::
  "string \<Rightarrow> string \<Rightarrow> string \<Rightarrow> nat \<Rightarrow> (nat \<rightharpoonup> nat) \<Rightarrow> (nat \<rightharpoonup> pyfloat) \<Rightarrow> (nat \<rightharpoonup> pyfloat) \<Rightarrow>
   world \<Rightarrow> outcome \<times> world" where
  "write_outputs output_dir file_path process_column total_count dc af bf w =
     (let report_path = path_join output_dir ''benford_analysis_report.txt''
      in case map_raise (make_row dc af bf) [1..<10] of
        Inl x \<Rightarrow> (Raised x, w)
      | Inr rows \<Rightarrow>
          (let w1 = write_file report_path
                      (ReportFile \<lparr>analyzed_file = file_path, column_analyzed = process_column,
                         total_valid_entries = total_count, report_table = rows\<rparr>) w;
               w2 = print (ReportSavedTo report_path) w1;
               digits = [1..<10]
           in case map_raise (percent_of af) digits of
             Inl x \<Rightarrow> (Raised x, w2)
           | Inr av \<Rightarrow>
               (case map_raise (percent_of bf) digits of
                  Inl x \<Rightarrow> (Raised x, w2)
                | Inr bv \<Rightarrow>
                    (let chart_path = path_join output_dir ''benford_analysis_chart.png'';
                         w3 = write_file chart_path
                                (ChartFile \<lparr>actual_values = av, benford_values = bv\<rparr>) w2
                     in (Completed, print (ChartSavedTo chart_path) w3)))))"

text \<open>Lines 60 to 86, once the column is chosen.\<close>

definition analyse ::
  "(pyfloat \<Rightarrow> pyfloat) \<Rightarrow> string \<Rightarrow> string \<Rightarrow> string \<Rightarrow> dataframe \<Rightarrow> world \<Rightarrow> outcome \<times> world" where
  "analyse log10 output_dir file_path process_column df w =
     (let w1 = print (ProcessingColumn process_column) w
      in case getitem (map_of df) process_column of
        Inl x \<Rightarrow> (Raised x, w1)
      | Inr col \<Rightarrow>
          (let ds = first_digits col
           in if ds = [] then (NoDataError, print NoValidNumericData w1)
              else
                (let total_count = length ds;
                     w2 = print (TotalValidEntries total_count) w1;
                     dc = digit_counts ds;
                     af = actual_freq dc total_count;
                     bf = benford_freq log10
                 in write_outputs output_dir file_path process_column total_count dc af bf w2)))"

text \<open>
  \<open>main\<close>, given the C library's \<open>log10\<close> and what \<open>pd.read_excel('je_samples.xlsx')\<close>
  does in this run: raise (\<open>Inl\<close>, with the exception's text) or return a table.
\<close>

definition main :: "(pyfloat \<Rightarrow> pyfloat) \<Rightarrow> string + dataframe \<Rightarrow> world \<Rightarrow> outcome \<times> world" where
  "main log10 read_excel w0 =
     (let w1 = print Starting w0;
          output_dir = ''output'';
          w2 = (if \<not> path_exists w1 output_dir
                then print (CreatedDirectory output_dir) (makedirs output_dir w1)
                else w1);
          file_path = ''je_samples.xlsx''
      in case read_excel of
        Inl e \<Rightarrow> (LoadError, print (ErrorLoadingExcel e) w2)
      | Inr df \<Rightarrow>
          (let w3 = print DataLoaded w2
           in if ''Amount'' \<in> set (columns df)
              then analyse log10 output_dir file_path ''Amount'' df w3
              else if ''AbsoluteAmount'' \<in> set (columns df)
              then analyse log10 output_dir file_path ''AbsoluteAmount'' df
                     (print AmountNotFoundUsingAbsolute w3)
              else (ColumnNotFoundError,
                    print (AvailableColumns (columns df)) (print NeitherColumnFound w3))))"

section \<open>What a run leaves behind\<close>

text \<open>
  Names for the states that the statements about \<open>main\<close> speak of.  \<open>started\<close> is the
  state after lines 31 to 37: the banner is printed, and when no path \<open>output\<close> existed
  the directory is created and its creation announced.
\<close>

definition startup_messages :: "world \<Rightarrow> message list" where
  "startup_messages w =
     Starting # (if path_exists w ''output'' then [] else [CreatedDirectory ''output''])"

definition started :: "world \<Rightarrow> world" where
  "started w =
     w\<lparr>dirs := (if path_exists w ''output'' then dirs w else insert ''output'' (dirs w)),
       console := console w @ startup_messages w\<rparr>"

definition report_path :: string where
  "report_path = ''output/benford_analysis_report.txt''"

definition chart_path :: string where
  "chart_path = ''output/benford_analysis_chart.png''"

text \<open>The column that lines 49 to 58 settle on, with its cells.\<close>

definition chosen_column :: "dataframe \<Rightarrow> (string \<times> pyval list) option" where
  "chosen_column df =
     (if ''Amount'' \<in> set (columns df) then map_option (Pair ''Amount'') (map_of df ''Amount'')
      else if ''AbsoluteAmount'' \<in> set (columns df)
      then map_option (Pair ''AbsoluteAmount'') (map_of df ''AbsoluteAmount'')
      else None)"

text \<open>The table row, the report and the chart that the valid digits \<open>ds\<close> lead to.\<close>

definition row_of :: "(pyfloat \<Rightarrow> pyfloat) \<Rightarrow> nat list \<Rightarrow> nat \<Rightarrow> report_row" where
  "row_of log10 ds d =
     (let act = fmul (np_true_divide (count_list ds d) (length ds)) hundred;
          ben = fmul (log10 (benford_arg d)) hundred
      in \<lparr>row_digit = d, row_count = count_list ds d, row_act_p = act, row_ben_p = ben,
           row_diff = fsub act ben\<rparr>)"

definition final_report :: "(pyfloat \<Rightarrow> pyfloat) \<Rightarrow> string \<Rightarrow> nat list \<Rightarrow> report" where
  "final_report log10 pc ds =
     \<lparr>analyzed_file = ''je_samples.xlsx'', column_analyzed = pc,
      total_valid_entries = length ds, report_table = map (row_of log10 ds) [1..<10]\<rparr>"

definition final_chart :: "(pyfloat \<Rightarrow> pyfloat) \<Rightarrow> nat list \<Rightarrow> chart" where
  "final_chart log10 ds =
     \<lparr>actual_values =
        map (\<lambda>d. fmul (np_true_divide (count_list ds d) (length ds)) hundred) [1..<10],
      benford_values = map (\<lambda>d. fmul (log10 (benford_arg d)) hundred) [1..<10]\<rparr>"

text \<open>
  The column of the specification's scenario, \<open>[123, 45.6, 0, -0.0089, "bad", null]\<close>.
  The two decimals are the doubles nearest to them; the empty cell is the parameter,
  since pandas delivers it as NaN and other sources as \<open>None\<close>.
\<close>

definition scenario_column :: "pyval \<Rightarrow> pyval list" where
  "scenario_column null =
     [PInt 123, PFloat (round_to_double False 456 10), PInt 0,
      PFloat (round_to_double True 89 10000), PStr ''bad'', null]"

definition empty_world :: world where
  "empty_world = \<lparr>dirs = {}, files = Map.empty, console = []\<rparr>"

text \<open>A working directory in which \<open>output\<close> is an ordinary file, not a directory.\<close>

definition file_in_the_way :: world where
  "file_in_the_way =
     \<lparr>dirs = {}, files = [''output'' \<mapsto> OtherFile ''notes''], console = []\<rparr>"

section \<open>Decimal digits\<close>

text \<open>The leading decimal digit of a positive number, and the last \<open>k\<close> decimal digits
  of a number, zeros included.\<close>

fun leading_digit :: "nat \<Rightarrow> nat" where
  "leading_digit n = (if n < 10 then n else leading_digit (n div 10))"

declare leading_digit.simps [simp del]

fun last_digits :: "nat \<Rightarrow> nat \<Rightarrow> string" where
  "last_digits 0 n = []"
| "last_digits (Suc k) n = last_digits k (n div 10) @ [digit_char (n mod 10)]"

section \<open>Numbers that 15 decimals show exactly\<close>



section \<open>The result of \<open>get_first_digit\<close> is absent or a digit from 1 to 9\<close>

lemma index_of_digit_chars:
  "index_of c digit_chars = Some d \<Longrightarrow> d \<le> 9 \<and> (d = 0 \<longrightarrow> c = CHR ''0'')"
  by (auto simp: digit_chars_def split: if_splits)

lemma py_int_char_range:
  "py_int_char c = Inr d \<Longrightarrow> c \<noteq> CHR ''0'' \<Longrightarrow> 1 \<le> d \<and> d \<le> 9"
  unfolding py_int_char_def
  by (cases "index_of c digit_chars") (use index_of_digit_chars [of c] in \<open>auto simp: Suc_le_eq\<close>)

lemma lstrip_zeros_Cons: "lstrip_zeros s = c # cs \<Longrightarrow> c \<noteq> CHR ''0''"
  unfolding lstrip_zeros_def using hd_dropWhile [of "\<lambda>c. c = CHR ''0''" s] by auto

lemma get_first_digit_body_range:
  assumes "get_first_digit_body n = Inr (Some d)"
  shows "1 \<le> d \<and> d \<le> 9"
  using assms unfolding get_first_digit_body_def
  by (auto split: if_splits sum.splits list.splits dest: lstrip_zeros_Cons py_int_char_range)

lemma get_first_digit_range:
  "get_first_digit v = None \<or> (\<exists>d. get_first_digit v = Some d \<and> 1 \<le> d \<and> d \<le> 9)"
proof (cases "get_first_digit_body v")
  case (Inl x)
  then show ?thesis by (simp add: get_first_digit_def)
next
  case (Inr r)
  show ?thesis
  proof (cases r)
    case None
    with Inr show ?thesis by (simp add: get_first_digit_def)
  next
    case (Some d)
    with Inr get_first_digit_body_range [of v d] show ?thesis
      by (simp add: get_first_digit_def)
  qed
qed

lemma get_first_digit_Some: "get_first_digit v = Some d \<Longrightarrow> 1 \<le> d \<and> d \<le> 9"
  using get_first_digit_range [of v] by auto

lemma get_first_digit_infinity: "get_first_digit (PFloat (Infinity s)) = None"
  by (simp add: get_first_digit_def get_first_digit_body_def format_f_def remove_dots_def
      lstrip_zeros_def py_int_char_def digit_chars_def)

lemma get_first_digit_not_number:
  "get_first_digit (PStr t) = None" "get_first_digit (PDatetime t) = None"
  "get_first_digit PNone = None" "get_first_digit PNaT = None"
  "get_first_digit (PFloat NaN) = None"
  by (simp_all add: get_first_digit_def get_first_digit_body_def)

text \<open>
  Claim C9.  \<open>get_first_digit\<close> is total: whatever the cell holds (text, a date, a missing
  value, NaN, an infinity, any number), every exception raised inside it is turned into
  \<open>None\<close> by its handler, and its result is \<open>None\<close> or a digit from 1 to 9, never 0.  Both
  infinities, NaN and every string give \<open>None\<close>.
\<close>

theorem get_first_digit_total:
  "(get_first_digit v = None \<or> (\<exists>d. get_first_digit v = Some d \<and> 1 \<le> d \<and> d \<le> 9))
   \<and> get_first_digit v \<noteq> Some 0
   \<and> get_first_digit (PFloat (Infinity s)) = None
   \<and> get_first_digit (PFloat NaN) = None
   \<and> get_first_digit (PStr t) = None"
proof -
  have "get_first_digit v \<noteq> Some 0"
    using get_first_digit_Some [of v 0] by auto
  then show ?thesis
    using get_first_digit_range [of v] get_first_digit_infinity [of s]
      get_first_digit_not_number(1) [of t] get_first_digit_not_number(5)
    by blast
qed

section \<open>Evaluating the model on numerals\<close>

text \<open>Rewrite rules that let the simplifier run the recursive definitions on
  concrete numbers.\<close>

lemma bit_length_numeral:
  "bit_length 0 = 0" "bit_length 1 = 1" "bit_length (Suc 0) = 1"
  "bit_length (numeral Num.One) = 1"
  "bit_length (numeral (Num.Bit0 n)) = bit_length (numeral n) + 1"
  "bit_length (numeral (Num.Bit1 n)) = bit_length (numeral n) + 1"
  by (subst bit_length.simps, simp add: bit_length.simps [of 0])+

lemma digit_char_simps:
  "digit_char 0 = CHR ''0''" "digit_char 1 = CHR ''1''" "digit_char 2 = CHR ''2''"
  "digit_char 3 = CHR ''3''" "digit_char 4 = CHR ''4''" "digit_char 5 = CHR ''5''"
  "digit_char 6 = CHR ''6''" "digit_char 7 = CHR ''7''" "digit_char 8 = CHR ''8''"
  "digit_char 9 = CHR ''9''" "digit_char (Suc 0) = CHR ''1''"
  by (simp_all add: digit_char_def digit_chars_def)

lemma show_nat_numeral:
  "show_nat (numeral k) =
     (if numeral k < (10::nat) then [digit_char (numeral k)]
      else show_nat (numeral k div 10) @ [digit_char (numeral k mod 10)])"
  "show_nat 0 = ''0''" "show_nat 1 = ''1''" "show_nat (Suc 0) = ''1''"
  by (subst show_nat.simps, simp add: digit_char_simps)+

lemma dropWhile_replicate_eq:
  "dropWhile (\<lambda>c. c = x) (replicate n x @ ys) = dropWhile (\<lambda>c. c = x) ys"
  by (induction n) simp_all

lemmas eval_simps = dropWhile_replicate_eq bit_length_numeral digit_char_simps show_nat_numeral
  get_first_digit_def get_first_digit_body_def format_f_def scaled_def rhe_div_def Let_def
  remove_dots_def lstrip_zeros_def zfill_def py_int_char_def digit_chars_def float_of_int_def
  round_to_double_def floor_log2_def

section \<open>Counting the digits\<close>

lemma map_raise_Inr:
  "(\<And>x. x \<in> set xs \<Longrightarrow> f x = Inr (g x)) \<Longrightarrow> map_raise f xs = Inr (map g xs)"
  by (induction xs) auto

lemma fold_ensure:
  "fold (\<lambda>i m. if m i = None then m(i \<mapsto> 0) else m) xs m d =
     (if d \<in> set xs \<and> m d = None then Some 0 else m d)"
  by (induction xs arbitrary: m) auto

lemma digit_counts_apply:
  "digit_counts ds d =
     (if d \<in> set ds then Some (count_list ds d) else if 1 \<le> d \<and> d < 10 then Some 0 else None)"
  by (auto simp: digit_counts_def ensure_digits_def fold_ensure value_counts_def)

lemma digit_counts_digit:
  "1 \<le> d \<Longrightarrow> d < 10 \<Longrightarrow> digit_counts ds d = Some (count_list ds d)"
  by (simp add: digit_counts_apply count_list_0_iff)

lemma first_digits_range:
  assumes "d \<in> set (first_digits col)"
  shows "1 \<le> d \<and> d < 10"
proof -
  from assms obtain v where "get_first_digit v = Some d"
    by (auto simp: first_digits_def List.map_filter_def)
  then show ?thesis
    using get_first_digit_Some [of v d] by simp
qed

lemma sum_counts_digits:
  assumes "\<And>d. d \<in> set ds \<Longrightarrow> 1 \<le> d \<and> d < 10"
  shows "sum_list (map (count_list ds) [1..<10]) = length ds"
proof -
  have "sum_list (map (count_list ds) [1..<10]) = sum (count_list ds) (set [1..<10])"
    by (rule sum_list_distinct_conv_sum_set) simp
  also have "\<dots> = length ds"
    by (rule sum_count_set) (use assms in auto)
  finally show ?thesis .
qed

section \<open>What \<open>main\<close> does, case by case\<close>

lemma make_row_digit:
  assumes "1 \<le> d" "d < 10"
  shows "make_row (digit_counts ds) (actual_freq (digit_counts ds) (length ds)) (benford_freq L) d
         = Inr (row_of L ds d)"
  using assms
  by (simp add: make_row_def getitem_def actual_freq_def benford_freq_def digit_counts_digit
      row_of_def Let_def)

lemma percent_of_actual:
  assumes "1 \<le> d" "d < 10"
  shows "percent_of (actual_freq (digit_counts ds) (length ds)) d
         = Inr (fmul (np_true_divide (count_list ds d) (length ds)) hundred)"
  using assms by (simp add: percent_of_def getitem_def actual_freq_def digit_counts_digit)

lemma percent_of_benford:
  assumes "1 \<le> d" "d < 10"
  shows "percent_of (benford_freq L) d = Inr (fmul (L (benford_arg d)) hundred)"
  using assms by (simp add: percent_of_def getitem_def benford_freq_def)

lemma write_outputs_digit_counts:
  "write_outputs ''output'' ''je_samples.xlsx'' pc (length ds) (digit_counts ds)
      (actual_freq (digit_counts ds) (length ds)) (benford_freq L) w =
   (Completed,
    w\<lparr>files := (files w)(report_path \<mapsto> ReportFile (final_report L pc ds),
                          chart_path \<mapsto> ChartFile (final_chart L ds)),
      console := console w @ [ReportSavedTo report_path, ChartSavedTo chart_path]\<rparr>)"
proof -
  have rows: "map_raise (make_row (digit_counts ds) (actual_freq (digit_counts ds) (length ds))
                 (benford_freq L)) [1..<10] = Inr (map (row_of L ds) [1..<10])"
    by (rule map_raise_Inr) (simp add: make_row_digit)
  have av: "map_raise (percent_of (actual_freq (digit_counts ds) (length ds))) [1..<10]
      = Inr (map (\<lambda>d. fmul (np_true_divide (count_list ds d) (length ds)) hundred) [1..<10])"
    by (rule map_raise_Inr) (simp add: percent_of_actual)
  have bv: "map_raise (percent_of (benford_freq L)) [1..<10]
      = Inr (map (\<lambda>d. fmul (L (benford_arg d)) hundred) [1..<10])"
    by (rule map_raise_Inr) (simp add: percent_of_benford)
  show ?thesis
    unfolding write_outputs_def Let_def rows av bv
    by (simp add: print_def write_file_def final_report_def final_chart_def path_join_def
        report_path_def chart_path_def)
qed

lemma analyse_eq:
  assumes "map_of df pc = Some col"
  shows "analyse L ''output'' ''je_samples.xlsx'' pc df w =
    (if first_digits col = []
     then (NoDataError, w\<lparr>console := console w @ [ProcessingColumn pc, NoValidNumericData]\<rparr>)
     else (Completed,
       w\<lparr>files := (files w)(report_path \<mapsto> ReportFile (final_report L pc (first_digits col)),
                             chart_path \<mapsto> ChartFile (final_chart L (first_digits col))),
         console := console w @ [ProcessingColumn pc, TotalValidEntries (length (first_digits col)),
            ReportSavedTo report_path, ChartSavedTo chart_path]\<rparr>))"
  using assms
  by (simp add: analyse_def getitem_def Let_def write_outputs_digit_counts print_def)

lemma map_of_column: "c \<in> set (columns df) \<Longrightarrow> \<exists>col. map_of df c = Some col"
  unfolding columns_def using map_of_eq_None_iff [of df c] by auto

lemma main_started:
  "main L rx w0 =
     (case rx of
        Inl e \<Rightarrow> (LoadError, print (ErrorLoadingExcel e) (started w0))
      | Inr df \<Rightarrow>
          (if ''Amount'' \<in> set (columns df)
           then analyse L ''output'' ''je_samples.xlsx'' ''Amount'' df (print DataLoaded (started w0))
           else if ''AbsoluteAmount'' \<in> set (columns df)
           then analyse L ''output'' ''je_samples.xlsx'' ''AbsoluteAmount'' df
                  (print AmountNotFoundUsingAbsolute (print DataLoaded (started w0)))
           else (ColumnNotFoundError,
                 print (AvailableColumns (columns df))
                   (print NeitherColumnFound (print DataLoaded (started w0))))))"
proof -
  have "(if \<not> path_exists (print Starting w0) ''output''
         then print (CreatedDirectory ''output'') (makedirs ''output'' (print Starting w0))
         else print Starting w0) = started w0"
    by (simp add: path_exists_def print_def makedirs_def started_def startup_messages_def)
  then show ?thesis
    unfolding main_def Let_def by (simp only: split: sum.splits)
qed

lemma main_load_error:
  "main L (Inl e) w0 = (LoadError, print (ErrorLoadingExcel e) (started w0))"
  by (simp add: main_started)

lemma main_no_column:
  assumes "''Amount'' \<notin> set (columns df)" "''AbsoluteAmount'' \<notin> set (columns df)"
  shows "main L (Inr df) w0 =
    (ColumnNotFoundError,
     (started w0)\<lparr>console := console (started w0) @
        [DataLoaded, NeitherColumnFound, AvailableColumns (columns df)]\<rparr>)"
  using assms by (simp add: main_started print_def)

lemma main_chosen:
  assumes "chosen_column df = Some (pc, col)"
  shows "main L (Inr df) w0 =
    (let notice = (if pc = ''Amount'' then [] else [AmountNotFoundUsingAbsolute]);
         w = started w0
     in if first_digits col = []
        then (NoDataError,
              w\<lparr>console := console w @ DataLoaded # notice @
                   [ProcessingColumn pc, NoValidNumericData]\<rparr>)
        else (Completed,
              w\<lparr>files := (files w)(report_path \<mapsto> ReportFile (final_report L pc (first_digits col)),
                                    chart_path \<mapsto> ChartFile (final_chart L (first_digits col))),
                console := console w @ DataLoaded # notice @
                   [ProcessingColumn pc, TotalValidEntries (length (first_digits col)),
                    ReportSavedTo report_path, ChartSavedTo chart_path]\<rparr>))"
proof (cases "''Amount'' \<in> set (columns df)")
  case True
  with assms have "pc = ''Amount''" "map_of df ''Amount'' = Some col"
    by (auto simp: chosen_column_def)
  with True show ?thesis
    by (simp add: main_started analyse_eq print_def Let_def)
next
  case False
  with assms have abs: "''AbsoluteAmount'' \<in> set (columns df)"
    by (auto simp: chosen_column_def split: if_splits)
  with False assms have "pc = ''AbsoluteAmount''" "map_of df ''AbsoluteAmount'' = Some col"
    by (auto simp: chosen_column_def)
  with False abs show ?thesis
    by (simp add: main_started analyse_eq print_def Let_def)
qed

lemma chosen_column_cases:
  "(''Amount'' \<in> set (columns df) \<and> (\<exists>col. chosen_column df = Some (''Amount'', col)))
   \<or> (''Amount'' \<notin> set (columns df) \<and> ''AbsoluteAmount'' \<in> set (columns df)
       \<and> (\<exists>col. chosen_column df = Some (''AbsoluteAmount'', col)))
   \<or> (''Amount'' \<notin> set (columns df) \<and> ''AbsoluteAmount'' \<notin> set (columns df)
       \<and> chosen_column df = None)"
  using map_of_column [of "''Amount''" df] map_of_column [of "''AbsoluteAmount''" df]
  by (auto simp: chosen_column_def)

lemma started_files [simp]: "files (started w) = files w"
  by (simp add: started_def)

lemma started_dirs [simp]:
  "dirs (started w) = (if path_exists w ''output'' then dirs w else insert ''output'' (dirs w))"
  by (simp add: started_def)

lemma started_console [simp]: "console (started w) = console w @ startup_messages w"
  by (simp add: started_def)

lemma main_outcome:
  "fst (main L (Inr df) w0) =
     (case chosen_column df of
        None \<Rightarrow> ColumnNotFoundError
      | Some (pc, col) \<Rightarrow> if first_digits col = [] then NoDataError else Completed)"
  using chosen_column_cases [of df]
  by (auto simp: main_chosen main_no_column Let_def)

lemma upt_1_10: "[1..<10] = [1, 2, 3, 4, 5, 6, 7, 8, 9 :: nat]"
  by (simp add: upt_rec)

section \<open>Loading fails\<close>

text \<open>
  Claim C10 as stated fails.  \<open>os.path.exists\<close> is also true of an ordinary file.  In a
  working directory where \<open>output\<close> is such a file, the program creates no directory and
  announces none; when the workbook then fails to load, the run ends with the load error
  and there is no directory \<open>output\<close>.
\<close>

theorem load_error_without_directory:
  "fst (main (\<lambda>x. x) (Inl ''No such file'') file_in_the_way) = LoadError
   \<and> ''output'' \<notin> dirs (snd (main (\<lambda>x. x) (Inl ''No such file'') file_in_the_way))
   \<and> console (snd (main (\<lambda>x. x) (Inl ''No such file'') file_in_the_way)) =
       [Starting, ErrorLoadingExcel ''No such file'']"
  by (simp add: main_load_error print_def startup_messages_def path_exists_def
      file_in_the_way_def)

text \<open>
  Claim C10, amended.  When no path \<open>output\<close> exists, the directory is created and its
  creation announced before the workbook is read; when \<open>output\<close> is already a directory,
  nothing is created or announced.  So a run that ends in a load error (which happens
  exactly when reading the workbook raised) and that did not start with an ordinary file
  named \<open>output\<close> leaves the directory \<open>output\<close> in place; it has printed the banner,
  the creation notice if the directory was missing, and the load error, in this order, and
  has written no file.
\<close>

theorem load_error_leaves_directory:
  assumes "fst (main L rx w0) = LoadError" and "files w0 ''output'' = None"
  shows "\<exists>e. rx = Inl e
           \<and> ''output'' \<in> dirs (snd (main L rx w0))
           \<and> files (snd (main L rx w0)) = files w0
           \<and> console (snd (main L rx w0)) =
               console w0 @ Starting #
                 (if ''output'' \<in> dirs w0 then [] else [CreatedDirectory ''output'']) @
                 [ErrorLoadingExcel e]"
proof (cases rx)
  case (Inl e)
  with assms(2) show ?thesis
    by (simp add: main_load_error print_def startup_messages_def path_exists_def)
next
  case (Inr df)
  with assms(1) show ?thesis
    by (simp add: main_outcome split: option.splits prod.splits if_splits)
qed

theorem load_error_leaves_directory_witness:
  "fst (main (\<lambda>x. x) (Inl ''No such file'') empty_world) = LoadError
   \<and> files empty_world ''output'' = None
   \<and> ''output'' \<in> dirs (snd (main (\<lambda>x. x) (Inl ''No such file'') empty_world))
   \<and> files (snd (main (\<lambda>x. x) (Inl ''No such file'') empty_world)) = Map.empty
   \<and> console (snd (main (\<lambda>x. x) (Inl ''No such file'') empty_world)) =
       [Starting, CreatedDirectory ''output'', ErrorLoadingExcel ''No such file'']"
proof -
  have h: "fst (main (\<lambda>x. x) (Inl ''No such file'') empty_world) = LoadError"
    by (simp add: main_load_error)
  have f: "files empty_world ''output'' = None"
    by (simp add: empty_world_def)
  show ?thesis
    using h f load_error_leaves_directory [OF h f] by (simp add: empty_world_def)
qed

section \<open>Choosing the column\<close>

text \<open>
  Claim C5.  Once the workbook is loaded, the column is chosen in a fixed order.  If there
  is a column \<open>Amount\<close>, it is the one processed, with no fallback notice.  Otherwise, if
  there is a column \<open>AbsoluteAmount\<close>, the fallback notice is printed and that column is
  processed.  Otherwise the run ends with the column error: it prints the error and
  the list of the columns there are, and writes no file.  In the first two cases the run
  goes on to the digits of the chosen column's cells and does not end with the column
  error.
\<close>

theorem column_selection:
  "(''Amount'' \<in> set (columns df) \<longrightarrow>
      (\<exists>col rest. map_of df ''Amount'' = Some col
         \<and> console (snd (main L (Inr df) w0)) =
             console w0 @ startup_messages w0 @ [DataLoaded, ProcessingColumn ''Amount''] @ rest
         \<and> fst (main L (Inr df) w0) = (if first_digits col = [] then NoDataError else Completed)))
   \<and> (''Amount'' \<notin> set (columns df) \<and> ''AbsoluteAmount'' \<in> set (columns df) \<longrightarrow>
      (\<exists>col rest. map_of df ''AbsoluteAmount'' = Some col
         \<and> console (snd (main L (Inr df) w0)) =
             console w0 @ startup_messages w0 @
               [DataLoaded, AmountNotFoundUsingAbsolute, ProcessingColumn ''AbsoluteAmount''] @ rest
         \<and> fst (main L (Inr df) w0) = (if first_digits col = [] then NoDataError else Completed)))
   \<and> (''Amount'' \<notin> set (columns df) \<and> ''AbsoluteAmount'' \<notin> set (columns df) \<longrightarrow>
      fst (main L (Inr df) w0) = ColumnNotFoundError
      \<and> console (snd (main L (Inr df) w0)) =
          console w0 @ startup_messages w0 @
            [DataLoaded, NeitherColumnFound, AvailableColumns (columns df)]
      \<and> files (snd (main L (Inr df) w0)) = files w0)"
proof -
  have A: "''Amount'' \<in> set (columns df) \<longrightarrow>
      (\<exists>col rest. map_of df ''Amount'' = Some col
         \<and> console (snd (main L (Inr df) w0)) =
             console w0 @ startup_messages w0 @ [DataLoaded, ProcessingColumn ''Amount''] @ rest
         \<and> fst (main L (Inr df) w0) = (if first_digits col = [] then NoDataError else Completed))"
  proof
    assume a: "''Amount'' \<in> set (columns df)"
    then obtain col where c: "chosen_column df = Some (''Amount'', col)"
      using chosen_column_cases [of df] by auto
    with a have m: "map_of df ''Amount'' = Some col"
      by (auto simp: chosen_column_def)
    show "\<exists>col rest. map_of df ''Amount'' = Some col
         \<and> console (snd (main L (Inr df) w0)) =
             console w0 @ startup_messages w0 @ [DataLoaded, ProcessingColumn ''Amount''] @ rest
         \<and> fst (main L (Inr df) w0) = (if first_digits col = [] then NoDataError else Completed)"
      using m by (auto simp: main_chosen [OF c] Let_def)
  qed
  have B: "''Amount'' \<notin> set (columns df) \<and> ''AbsoluteAmount'' \<in> set (columns df) \<longrightarrow>
      (\<exists>col rest. map_of df ''AbsoluteAmount'' = Some col
         \<and> console (snd (main L (Inr df) w0)) =
             console w0 @ startup_messages w0 @
               [DataLoaded, AmountNotFoundUsingAbsolute, ProcessingColumn ''AbsoluteAmount''] @ rest
         \<and> fst (main L (Inr df) w0) = (if first_digits col = [] then NoDataError else Completed))"
  proof
    assume a: "''Amount'' \<notin> set (columns df) \<and> ''AbsoluteAmount'' \<in> set (columns df)"
    then obtain col where c: "chosen_column df = Some (''AbsoluteAmount'', col)"
      using chosen_column_cases [of df] by auto
    with a have m: "map_of df ''AbsoluteAmount'' = Some col"
      by (auto simp: chosen_column_def)
    show "\<exists>col rest. map_of df ''AbsoluteAmount'' = Some col
         \<and> console (snd (main L (Inr df) w0)) =
             console w0 @ startup_messages w0 @
               [DataLoaded, AmountNotFoundUsingAbsolute, ProcessingColumn ''AbsoluteAmount''] @ rest
         \<and> fst (main L (Inr df) w0) = (if first_digits col = [] then NoDataError else Completed)"
      using m by (auto simp: main_chosen [OF c] Let_def)
  qed
  have C: "''Amount'' \<notin> set (columns df) \<and> ''AbsoluteAmount'' \<notin> set (columns df) \<longrightarrow>
      fst (main L (Inr df) w0) = ColumnNotFoundError
      \<and> console (snd (main L (Inr df) w0)) =
          console w0 @ startup_messages w0 @
            [DataLoaded, NeitherColumnFound, AvailableColumns (columns df)]
      \<and> files (snd (main L (Inr df) w0)) = files w0"
    by (simp add: main_no_column)
  show ?thesis
    by (rule conjI [OF A conjI [OF B C]])
qed

lemma first_digits_zero_cell: "first_digits [PInt 0] = []"
  by (simp add: first_digits_def eval_simps get_first_digit_not_number)

theorem column_selection_witness:
  "(\<exists>rest. console (snd (main (\<lambda>x. x) (Inr [(''AbsoluteAmount'', []), (''Amount'', [PInt 0])])
              empty_world)) =
      [Starting, CreatedDirectory ''output'', DataLoaded, ProcessingColumn ''Amount''] @ rest)
   \<and> (\<exists>rest. console (snd (main (\<lambda>x. x) (Inr [(''Id'', []), (''AbsoluteAmount'', [PInt 0])])
              empty_world)) =
      [Starting, CreatedDirectory ''output'', DataLoaded, AmountNotFoundUsingAbsolute,
       ProcessingColumn ''AbsoluteAmount''] @ rest)
   \<and> fst (main (\<lambda>x. x) (Inr [(''Id'', []), (''Date'', [])]) empty_world) = ColumnNotFoundError
   \<and> console (snd (main (\<lambda>x. x) (Inr [(''Id'', []), (''Date'', [])]) empty_world)) =
       [Starting, CreatedDirectory ''output'', DataLoaded, NeitherColumnFound,
        AvailableColumns [''Id'', ''Date'']]
   \<and> files (snd (main (\<lambda>x. x) (Inr [(''Id'', []), (''Date'', [])]) empty_world)) = Map.empty"
proof -
  have 1: "''Amount'' \<in> set (columns [(''AbsoluteAmount'', []), (''Amount'', [PInt 0])])"
    by (simp add: columns_def)
  have 2: "''Amount'' \<notin> set (columns [(''Id'', []), (''AbsoluteAmount'', [PInt 0])])
           \<and> ''AbsoluteAmount'' \<in> set (columns [(''Id'', []), (''AbsoluteAmount'', [PInt 0])])"
    by (simp add: columns_def)
  have 3: "''Amount'' \<notin> set (columns [(''Id'', []), (''Date'', [])])
           \<and> ''AbsoluteAmount'' \<notin> set (columns [(''Id'', []), (''Date'', [])])"
    by (simp add: columns_def)
  show ?thesis
    using 1 2 3
      column_selection [of "[(''AbsoluteAmount'', []), (''Amount'', [PInt 0])]" "\<lambda>x. x" empty_world]
      column_selection [of "[(''Id'', []), (''AbsoluteAmount'', [PInt 0])]" "\<lambda>x. x" empty_world]
      column_selection [of "[(''Id'', []), (''Date'', [])]" "\<lambda>x. x" empty_world]
    by (simp add: empty_world_def startup_messages_def path_exists_def columns_def)
qed

section \<open>No valid digit\<close>

text \<open>
  Claim C6.  When no cell of the chosen column has a leading digit, the run ends with the
  no-data error: it prints that no valid numeric data was found and writes no file, so
  neither the report nor the chart comes into being.
\<close>

theorem no_valid_digits:
  assumes "chosen_column df = Some (pc, col)" and "first_digits col = []"
  shows "fst (main L (Inr df) w0) = NoDataError
         \<and> files (snd (main L (Inr df) w0)) = files w0
         \<and> last (console (snd (main L (Inr df) w0))) = NoValidNumericData
         \<and> (\<forall>p. ReportSavedTo p \<notin> set (console (snd (main L (Inr df) w0))) - set (console w0))"
  using assms by (auto simp: main_chosen Let_def startup_messages_def)

lemma first_digits_no_data:
  "first_digits [PFloat NaN, PInt 0, PStr ''n/a'', PNone, PFloat (Finite False 0 0)] = []"
  by (simp add: first_digits_def eval_simps get_first_digit_not_number)

theorem no_valid_digits_witness:
  "chosen_column [(''Amount'', [PFloat NaN, PInt 0, PStr ''n/a'', PNone, PFloat (Finite False 0 0)])]
     = Some (''Amount'', [PFloat NaN, PInt 0, PStr ''n/a'', PNone, PFloat (Finite False 0 0)])
   \<and> first_digits [PFloat NaN, PInt 0, PStr ''n/a'', PNone, PFloat (Finite False 0 0)] = []
   \<and> fst (main (\<lambda>x. x)
        (Inr [(''Amount'', [PFloat NaN, PInt 0, PStr ''n/a'', PNone, PFloat (Finite False 0 0)])])
        empty_world) = NoDataError
   \<and> files (snd (main (\<lambda>x. x)
        (Inr [(''Amount'', [PFloat NaN, PInt 0, PStr ''n/a'', PNone, PFloat (Finite False 0 0)])])
        empty_world)) = Map.empty"
proof -
  have c: "chosen_column
      [(''Amount'', [PFloat NaN, PInt 0, PStr ''n/a'', PNone, PFloat (Finite False 0 0)])]
     = Some (''Amount'', [PFloat NaN, PInt 0, PStr ''n/a'', PNone, PFloat (Finite False 0 0)])"
    by (simp add: chosen_column_def columns_def)
  show ?thesis
    using c first_digits_no_data no_valid_digits [OF c first_digits_no_data, of "\<lambda>x. x" empty_world]
    by (simp add: empty_world_def)
qed

section \<open>The report's counts add up\<close>

lemma final_report_counts:
  assumes "\<And>d. d \<in> set ds \<Longrightarrow> 1 \<le> d \<and> d < 10"
  shows "sum_list (map row_count (report_table (final_report L pc ds))) = length ds"
proof -
  have "map row_count (report_table (final_report L pc ds)) = map (count_list ds) [1..<10]"
    by (simp add: final_report_def row_of_def Let_def)
  then show ?thesis
    using sum_counts_digits [of ds] assms by simp
qed

lemma main_completed:
  assumes "fst (main L rx w0) = Completed"
  shows "\<exists>df pc col. rx = Inr df \<and> chosen_column df = Some (pc, col) \<and> first_digits col \<noteq> []
           \<and> files (snd (main L rx w0)) report_path
                = Some (ReportFile (final_report L pc (first_digits col)))
           \<and> files (snd (main L rx w0)) chart_path
                = Some (ChartFile (final_chart L (first_digits col)))"
proof (cases rx)
  case (Inl e)
  with assms show ?thesis by (simp add: main_load_error)
next
  case (Inr df)
  with assms obtain pc col where c: "chosen_column df = Some (pc, col)"
      and n: "first_digits col \<noteq> []"
    by (auto simp: main_outcome split: option.splits if_splits)
  have "report_path \<noteq> chart_path"
    by (simp add: report_path_def chart_path_def)
  with Inr c n show ?thesis
    by (simp add: main_chosen [OF c] Let_def)
qed

text \<open>
  Claim C8.  In the report of every run that completes, the table has one row for each
  digit from 1 to 9 in order, and the counts in its Count column add up to the number of
  valid entries in the header, which is positive.
\<close>

theorem report_counts_sum_to_total:
  assumes "fst (main L rx w0) = Completed"
  shows "\<exists>rep. files (snd (main L rx w0)) report_path = Some (ReportFile rep)
           \<and> map row_digit (report_table rep) = [1..<10]
           \<and> sum_list (map row_count (report_table rep)) = total_valid_entries rep
           \<and> 0 < total_valid_entries rep"
proof -
  from main_completed [OF assms] obtain pc col where n: "first_digits col \<noteq> []"
    and r: "files (snd (main L rx w0)) report_path
              = Some (ReportFile (final_report L pc (first_digits col)))"
    by blast
  have "sum_list (map row_count (report_table (final_report L pc (first_digits col))))
          = length (first_digits col)"
    by (rule final_report_counts) (rule first_digits_range)
  moreover have "map row_digit (report_table (final_report L pc (first_digits col))) = [1..<10]"
    by (simp add: final_report_def row_of_def Let_def map_idI)
  moreover have "total_valid_entries (final_report L pc (first_digits col))
          = length (first_digits col)"
    by (simp add: final_report_def)
  ultimately show ?thesis
    using r n by simp
qed

lemma first_digits_two_cells: "first_digits [PInt 250, PInt (- 17)] = [2, 1]"
  by (simp add: first_digits_def eval_simps)

theorem report_counts_sum_to_total_witness:
  "fst (main (\<lambda>x. x) (Inr [(''Amount'', [PInt 250, PInt (- 17)])]) empty_world) = Completed
   \<and> (\<exists>rep. files (snd (main (\<lambda>x. x) (Inr [(''Amount'', [PInt 250, PInt (- 17)])]) empty_world))
               report_path = Some (ReportFile rep)
         \<and> map row_digit (report_table rep) = [1..<10]
         \<and> sum_list (map row_count (report_table rep)) = total_valid_entries rep
         \<and> 0 < total_valid_entries rep)"
proof -
  have c: "chosen_column [(''Amount'', [PInt 250, PInt (- 17)])]
             = Some (''Amount'', [PInt 250, PInt (- 17)])"
    by (simp add: chosen_column_def columns_def)
  have h: "fst (main (\<lambda>x. x) (Inr [(''Amount'', [PInt 250, PInt (- 17)])]) empty_world)
             = Completed"
    by (simp add: main_outcome c first_digits_two_cells)
  show ?thesis
    using h report_counts_sum_to_total [OF h] by simp
qed

section \<open>The scenario of the specification\<close>

lemma scenario_cell_digits:
  "get_first_digit (PInt 123) = Some 1"
  "get_first_digit (PFloat (round_to_double False 456 10)) = Some 4"
  "get_first_digit (PInt 0) = None"
  "get_first_digit (PFloat (round_to_double True 89 10000)) = Some 8"
  by (simp_all add: eval_simps)

lemma scenario_cells:
  "map get_first_digit (scenario_column PNone) = [Some 1, Some 4, None, Some 8, None, None]"
  "map get_first_digit (scenario_column (PFloat NaN)) = [Some 1, Some 4, None, Some 8, None, None]"
  by (simp_all add: scenario_column_def scenario_cell_digits get_first_digit_not_number)

lemma scenario_digits:
  "first_digits (scenario_column PNone) = [1, 4, 8]"
  "first_digits (scenario_column (PFloat NaN)) = [1, 4, 8]"
  by (simp_all add: first_digits_def scenario_column_def scenario_cell_digits
      get_first_digit_not_number)

text \<open>
  Claim C7.  For the column \<open>[123, 45.6, 0, -0.0089, "bad", null]\<close> the cells 0, "bad" and
  null have no digit and the others have the digits 1, 4 and 8, whether the empty cell is
  \<open>None\<close> or NaN.  The run on a workbook with this column as \<open>Amount\<close> completes, prints 3
  as the number of valid entries and writes a report with total 3 whose counts are 1 for
  the digits 1, 4 and 8 and 0 for the six others.
\<close>

theorem scenario_counts:
  "map get_first_digit (scenario_column PNone) = [Some 1, Some 4, None, Some 8, None, None]
   \<and> map get_first_digit (scenario_column (PFloat NaN))
       = [Some 1, Some 4, None, Some 8, None, None]
   \<and> first_digits (scenario_column PNone) = [1, 4, 8]
   \<and> first_digits (scenario_column (PFloat NaN)) = [1, 4, 8]
   \<and> map (digit_counts [1, 4, 8]) [1, 2, 3, 4, 5, 6, 7, 8, 9]
       = [Some 1, Some 0, Some 0, Some 1, Some 0, Some 0, Some 0, Some 1, Some 0]
   \<and> fst (main L (Inr [(''Amount'', scenario_column (PFloat NaN))]) w0) = Completed
   \<and> TotalValidEntries 3
       \<in> set (console (snd (main L (Inr [(''Amount'', scenario_column (PFloat NaN))]) w0)))
   \<and> (\<exists>rep. files (snd (main L (Inr [(''Amount'', scenario_column (PFloat NaN))]) w0)) report_path
               = Some (ReportFile rep)
         \<and> total_valid_entries rep = 3
         \<and> map (\<lambda>r. (row_digit r, row_count r)) (report_table rep)
             = [(1, 1), (2, 0), (3, 0), (4, 1), (5, 0), (6, 0), (7, 0), (8, 1), (9, 0)])"
proof -
  let ?df = "[(''Amount'', scenario_column (PFloat NaN))]"
  have c: "chosen_column ?df = Some (''Amount'', scenario_column (PFloat NaN))"
    by (simp add: chosen_column_def columns_def)
  have counts: "map (digit_counts [1, 4, 8]) [1, 2, 3, 4, 5, 6, 7, 8, 9]
       = [Some 1, Some 0, Some 0, Some 1, Some 0, Some 0, Some 0, Some 1, Some 0]"
    by (simp add: digit_counts_apply)
  have rows: "map (\<lambda>r. (row_digit r, row_count r)) (report_table (final_report L ''Amount'' [1, 4, 8]))
             = [(1, 1), (2, 0), (3, 0), (4, 1), (5, 0), (6, 0), (7, 0), (8, 1), (9, 0)]"
    unfolding final_report_def upt_1_10 by (simp add: row_of_def Let_def)
  have tot: "total_valid_entries (final_report L ''Amount'' [1, 4, 8]) = 3"
    by (simp add: final_report_def)
  have ne: "report_path \<noteq> chart_path"
    by (simp add: report_path_def chart_path_def)
  have run: "fst (main L (Inr ?df) w0) = Completed"
    "TotalValidEntries 3 \<in> set (console (snd (main L (Inr ?df) w0)))"
    "files (snd (main L (Inr ?df) w0)) report_path
       = Some (ReportFile (final_report L ''Amount'' [1, 4, 8]))"
    using ne by (simp_all add: main_chosen [OF c] scenario_digits Let_def)
  show ?thesis
    using scenario_cells scenario_digits counts run rows tot by simp
qed

section \<open>The digits that the format prints\<close>

lemma digit_cases: "d < 10 \<Longrightarrow> d \<in> {0, 1, 2, 3, 4, 5, 6, 7, 8, 9 :: nat}"
  by auto

lemma digit_char_in: "d < 10 \<Longrightarrow> digit_char d \<in> set digit_chars"
  using digit_cases [of d] by (auto simp: digit_char_simps digit_chars_def)

lemma digit_char_zero_iff: "d < 10 \<Longrightarrow> digit_char d = CHR ''0'' \<longleftrightarrow> d = 0"
  using digit_cases [of d] by (auto simp: digit_char_simps)

lemma py_int_digit_char: "d < 10 \<Longrightarrow> py_int_char (digit_char d) = Inr d"
  using digit_cases [of d] by (auto simp: digit_char_simps py_int_char_def digit_chars_def)

lemma show_nat_digits: "set (show_nat n) \<subseteq> set digit_chars"
proof (induction n rule: show_nat.induct)
  case (1 n)
  show ?case
  proof (cases "n < 10")
    case True
    then show ?thesis
      by (subst show_nat.simps) (simp add: digit_char_in)
  next
    case False
    with "1" show ?thesis
      by (subst show_nat.simps) (simp add: digit_char_in)
  qed
qed

lemma show_nat_no_dot: "remove_dots (show_nat n) = show_nat n"
proof -
  have "CHR ''.'' \<notin> set digit_chars"
    by (simp add: digit_chars_def)
  with show_nat_digits [of n] have "\<forall>c \<in> set (show_nat n). c \<noteq> CHR ''.''"
    by auto
  then show ?thesis
    by (simp add: remove_dots_def)
qed

lemma show_nat_step:
  assumes "0 < n" "d < 10"
  shows "show_nat (n * 10 + d) = show_nat n @ [digit_char d]"
proof -
  from assms have "\<not> n * 10 + d < 10" by simp
  moreover from assms have "(n * 10 + d) div 10 = n" "(n * 10 + d) mod 10 = d"
    by simp_all
  ultimately show ?thesis
    by (subst show_nat.simps) simp
qed

lemma show_nat_leading:
  "0 < n \<Longrightarrow> \<exists>cs. show_nat n = digit_char (leading_digit n) # cs"
proof (induction n rule: show_nat.induct)
  case (1 n)
  show ?case
  proof (cases "n < 10")
    case True
    then show ?thesis
      by (subst show_nat.simps, subst leading_digit.simps) simp
  next
    case False
    then have "0 < n div 10" by simp
    with "1.IH" False obtain cs where "show_nat (n div 10) = digit_char (leading_digit (n div 10)) # cs"
      by auto
    with False show ?thesis
      by (subst show_nat.simps, subst leading_digit.simps) simp
  qed
qed

lemma leading_digit_range: "0 < n \<Longrightarrow> 1 \<le> leading_digit n \<and> leading_digit n \<le> 9"
proof (induction n rule: leading_digit.induct)
  case (1 n)
  show ?case
  proof (cases "n < 10")
    case True
    with "1.prems" show ?thesis
      by (subst (1 2) leading_digit.simps) simp
  next
    case False
    then have "0 < n div 10" by simp
    with "1.IH" False show ?thesis
      by (subst (1 2) leading_digit.simps) simp
  qed
qed

lemma leading_digit_times_10: "0 < n \<Longrightarrow> leading_digit (n * 10) = leading_digit n"
  by (subst leading_digit.simps) simp

lemma leading_digit_scale: "0 < n \<Longrightarrow> leading_digit (n * 10 ^ k) = leading_digit n"
proof (induction k)
  case 0
  then show ?case by simp
next
  case (Suc k)
  have "n * 10 ^ Suc k = n * 10 ^ k * 10"
    by simp
  then have "leading_digit (n * 10 ^ Suc k) = leading_digit (n * 10 ^ k * 10)"
    by (rule arg_cong)
  also have "\<dots> = leading_digit (n * 10 ^ k)"
    using Suc.prems by (intro leading_digit_times_10) simp
  also have "\<dots> = leading_digit n"
    using Suc by simp
  finally show ?case .
qed

lemma lstrip_show_nat: "0 < n \<Longrightarrow> lstrip_zeros (show_nat n) = show_nat n"
proof -
  assume n: "0 < n"
  then obtain cs where s: "show_nat n = digit_char (leading_digit n) # cs"
    using show_nat_leading by blast
  from n have "digit_char (leading_digit n) \<noteq> CHR ''0''"
    using leading_digit_range [of n] digit_char_zero_iff [of "leading_digit n"] by simp
  with s show ?thesis
    by (simp add: lstrip_zeros_def)
qed

lemma last_digits_zero: "last_digits k 0 = replicate k (CHR ''0'')"
  by (induction k) (simp_all add: digit_char_simps replicate_append_same)

lemma length_show_nat: "0 < k \<Longrightarrow> n < 10 ^ k \<Longrightarrow> length (show_nat n) \<le> k"
proof (induction k arbitrary: n)
  case 0
  then show ?case by simp
next
  case (Suc k)
  show ?case
  proof (cases "n < 10")
    case True
    then show ?thesis by (subst show_nat.simps) simp
  next
    case False
    with Suc.prems have k: "0 < k"
      by (cases k) simp_all
    from Suc.prems have "n div 10 < 10 ^ k"
      by (simp add: less_mult_imp_div_less mult.commute)
    with Suc.IH k have "length (show_nat (n div 10)) \<le> k" by simp
    with False show ?thesis
      by (subst show_nat.simps) simp
  qed
qed

lemma zfill_show_nat: "0 < k \<Longrightarrow> n < 10 ^ k \<Longrightarrow> zfill k (show_nat n) = last_digits k n"
proof (induction k arbitrary: n)
  case 0
  then show ?case by simp
next
  case (Suc k)
  show ?case
  proof (cases "n < 10")
    case True
    then have "show_nat n = [digit_char n]"
      by (subst show_nat.simps) simp
    with True show ?thesis
      by (simp add: zfill_def last_digits_zero)
  next
    case False
    with Suc.prems have k: "0 < k"
      by (cases k) simp_all
    from Suc.prems have d: "n div 10 < 10 ^ k"
      by (simp add: less_mult_imp_div_less mult.commute)
    from False have s: "show_nat n = show_nat (n div 10) @ [digit_char (n mod 10)]"
      by (subst show_nat.simps) simp
    have "zfill (Suc k) (show_nat n) = zfill k (show_nat (n div 10)) @ [digit_char (n mod 10)]"
      using length_show_nat [OF k d] by (simp add: s zfill_def)
    with Suc.IH [OF k d] show ?thesis by simp
  qed
qed

lemma show_nat_append_last_digits:
  "0 < a \<Longrightarrow> n < 10 ^ k \<Longrightarrow> show_nat a @ last_digits k n = show_nat (a * 10 ^ k + n)"
proof (induction k arbitrary: n)
  case 0
  then show ?case by simp
next
  case (Suc k)
  from Suc.prems have d: "n div 10 < 10 ^ k"
    by (simp add: less_mult_imp_div_less mult.commute)
  have "show_nat a @ last_digits (Suc k) n
          = show_nat (a * 10 ^ k + n div 10) @ [digit_char (n mod 10)]"
    using Suc.IH [OF Suc.prems(1) d] by simp
  also have "\<dots> = show_nat ((a * 10 ^ k + n div 10) * 10 + n mod 10)"
    using Suc.prems(1) by (intro show_nat_step [symmetric]) simp_all
  also have "(a * 10 ^ k + n div 10) * 10 + n mod 10 = a * 10 ^ Suc k + n"
    by (simp add: algebra_simps)
  finally show ?case .
qed

lemma lstrip_last_digits:
  "n < 10 ^ k \<Longrightarrow> lstrip_zeros (last_digits k n) = (if n = 0 then [] else show_nat n)"
proof (induction k arbitrary: n)
  case 0
  then show ?case by (simp add: lstrip_zeros_def)
next
  case (Suc k)
  show ?case
  proof (cases "n < 10")
    case True
    then have "show_nat n = [digit_char n]"
      by (subst show_nat.simps) simp
    with True show ?thesis
      using digit_char_zero_iff [of n]
      by (simp add: last_digits_zero lstrip_zeros_def dropWhile_replicate_eq)
  next
    case False
    from Suc.prems have d: "n div 10 < 10 ^ k"
      by (simp add: less_mult_imp_div_less mult.commute)
    from False have p: "0 < n div 10" by simp
    with Suc.IH [OF d] have i: "lstrip_zeros (last_digits k (n div 10)) = show_nat (n div 10)"
      by simp
    from p obtain cs where "show_nat (n div 10) = digit_char (leading_digit (n div 10)) # cs"
      using show_nat_leading by blast
    with i have "dropWhile (\<lambda>c. c = CHR ''0'') (last_digits k (n div 10)) \<noteq> []"
      by (simp add: lstrip_zeros_def)
    then obtain x where "x \<in> set (last_digits k (n div 10))" "x \<noteq> CHR ''0''"
      by (auto simp: dropWhile_eq_Nil_conv)
    then have "lstrip_zeros (last_digits k (n div 10) @ [digit_char (n mod 10)])
        = lstrip_zeros (last_digits k (n div 10)) @ [digit_char (n mod 10)]"
      unfolding lstrip_zeros_def by (intro dropWhile_append1) auto
    with i False show ?thesis
      by (subst show_nat.simps) simp
  qed
qed

section \<open>Rounding to the nearest integer and the printed digits\<close>

lemma rhe_div_zero [simp]: "rhe_div 0 b = 0"
  by (simp add: rhe_div_def)

lemma rhe_div_one [simp]: "rhe_div a (Suc 0) = a"
  by (simp add: rhe_div_def)

lemma rhe_div_mult: "0 < b \<Longrightarrow> rhe_div (k * b) b = k"
  by (simp add: rhe_div_def)

lemma rhe_div_ge: "a div b \<le> rhe_div a b"
  by (simp add: rhe_div_def Let_def)

lemma rhe_div_pos_iff:
  assumes "0 < b"
  shows "0 < rhe_div a b \<longleftrightarrow> b < 2 * a"
proof (cases "a < b")
  case True
  then show ?thesis
    by (simp add: rhe_div_def)
next
  case False
  with assms have "0 < a div b"
    by (simp add: div_greater_zero_iff)
  with rhe_div_ge [of a b] have "0 < rhe_div a b"
    by linarith
  with False assms show ?thesis
    by simp
qed

lemma rhe_div_le:
  assumes "0 < b" and "2 * a < (2 * K + 1) * b"
  shows "rhe_div a b \<le> K"
proof -
  have a: "a = a div b * b + a mod b"
    by simp
  have qK: "a div b \<le> K"
  proof (rule ccontr)
    assume "\<not> a div b \<le> K"
    then have "K + 1 \<le> a div b" by simp
    then have "(K + 1) * b \<le> a div b * b"
      by (rule mult_le_mono1)
    with a have "(K + 1) * b \<le> a" by linarith
    with assms show False by (simp add: algebra_simps)
  qed
  show ?thesis
  proof (cases "a div b = K")
    case True
    with a have "a = K * b + a mod b" by simp
    with assms(2) have "2 * (a mod b) < b"
      by (simp add: algebra_simps)
    with True show ?thesis
      by (simp add: rhe_div_def)
  next
    case False
    with qK have "a div b + 1 \<le> K" by simp
    then show ?thesis
      by (simp add: rhe_div_def Let_def)
  qed
qed

lemma scaled_zero [simp]: "scaled p 0 e = 0"
  by (simp add: scaled_def)

lemma scaled_pos_iff: "0 < scaled p m e \<longleftrightarrow> 2 ^ nat (- e) < 2 * (m * 10 ^ p * 2 ^ nat e)"
  unfolding scaled_def by (rule rhe_div_pos_iff) simp

lemma remove_dots_append: "remove_dots (xs @ ys) = remove_dots xs @ remove_dots ys"
  by (simp add: remove_dots_def)

lemma remove_dots_zfill: "remove_dots (zfill k (show_nat n)) = zfill k (show_nat n)"
proof -
  have "remove_dots (replicate j (CHR ''0'')) = replicate j (CHR ''0'')" for j
    by (simp add: remove_dots_def)
  then show ?thesis
    by (simp add: zfill_def remove_dots_append show_nat_no_dot)
qed

lemma stripped_format:
  "lstrip_zeros (remove_dots (format_f 15 (Finite False m e))) =
     (if scaled 15 m e = 0 then [] else show_nat (scaled 15 m e))"
proof -
  define q where "q = scaled 15 m e"
  define a where "a = q div 10 ^ 15"
  define r where "r = q mod 10 ^ 15"
  have r: "r < 10 ^ 15"
    by (simp add: r_def)
  have q: "q = a * 10 ^ 15 + r"
    by (simp add: a_def r_def)
  have "format_f 15 (Finite False m e) = show_nat a @ CHR ''.'' # zfill 15 (show_nat r)"
    by (simp add: format_f_def Let_def q_def a_def r_def)
  then have "remove_dots (format_f 15 (Finite False m e)) = show_nat a @ zfill 15 (show_nat r)"
    using remove_dots_zfill [of 15 r]
    by (simp add: remove_dots_append show_nat_no_dot) (simp add: remove_dots_def)
  also have "zfill 15 (show_nat r) = last_digits 15 r"
    using r by (intro zfill_show_nat) simp_all
  finally have f: "lstrip_zeros (remove_dots (format_f 15 (Finite False m e)))
      = lstrip_zeros (show_nat a @ last_digits 15 r)"
    by simp
  show ?thesis
  proof (cases "a = 0")
    case True
    then have "show_nat a = ''0''"
      by (simp add: show_nat_numeral)
    then have "lstrip_zeros (show_nat a @ last_digits 15 r) = lstrip_zeros (last_digits 15 r)"
      by (simp add: lstrip_zeros_def)
    with f True q lstrip_last_digits [OF r] show ?thesis
      by (simp add: q_def [symmetric])
  next
    case False
    then have "show_nat a @ last_digits 15 r = show_nat q"
      using show_nat_append_last_digits [of a r 15] r q by simp
    moreover from False q have "0 < q" by simp
    ultimately show ?thesis
      using f lstrip_show_nat [of q] by (simp add: q_def [symmetric])
  qed
qed

lemma first_char_digit:
  assumes "0 < q"
  shows "(case show_nat q of [] \<Rightarrow> Inr None
          | c # cs \<Rightarrow> (case py_int_char c of Inl x \<Rightarrow> Inl x | Inr d \<Rightarrow> Inr (Some d)))
         = Inr (Some (leading_digit q))"
proof -
  from assms obtain cs where "show_nat q = digit_char (leading_digit q) # cs"
    using show_nat_leading by blast
  moreover from assms have "leading_digit q < 10"
    using leading_digit_range [of q] by simp
  ultimately show ?thesis
    by (simp add: py_int_digit_char)
qed

lemma formatted_digit:
  "(case lstrip_zeros (remove_dots (format_f 15 (Finite False m e))) of [] \<Rightarrow> Inr None
    | c # cs \<Rightarrow> (case py_int_char c of Inl x \<Rightarrow> Inl x | Inr d \<Rightarrow> Inr (Some d)))
   = Inr (if scaled 15 m e = 0 then None else Some (leading_digit (scaled 15 m e)))"
  using first_char_digit [of "scaled 15 m e"] by (simp add: stripped_format)

lemma get_first_digit_finite:
  "get_first_digit (PFloat (Finite s m e)) =
     (if scaled 15 m e = 0 then None else Some (leading_digit (scaled 15 m e)))"
proof (cases "m = 0")
  case True
  then show ?thesis
    by (simp add: get_first_digit_def get_first_digit_body_def)
next
  case False
  then show ?thesis
    by (simp add: get_first_digit_def get_first_digit_body_def formatted_digit)
qed

lemma get_first_digit_int_as_float:
  assumes "n \<noteq> 0" and "float_of_int \<bar>n\<bar> = Inr (Finite s m e)"
  shows "get_first_digit (PInt n) =
     (if scaled 15 m e = 0 then None else Some (leading_digit (scaled 15 m e)))"
proof -
  from assms(2) have "s = False"
    by (auto simp: float_of_int_def round_to_double_def Let_def split: if_splits pyfloat.splits)
  with assms show ?thesis
    by (simp add: get_first_digit_def get_first_digit_body_def formatted_digit)
qed

section \<open>Integers converted to binary64\<close>

lemma bit_length_bounds:
  "0 < a \<Longrightarrow> 2 ^ (bit_length a - 1) \<le> a \<and> a < 2 ^ bit_length a"
proof (induction a rule: bit_length.induct)
  case (1 n)
  show ?case
  proof (cases "n div 2 = 0")
    case True
    with "1.prems" have "n = 1"
      by (simp add: div_eq_0_iff)
    then show ?thesis
      by (simp add: bit_length_numeral)
  next
    case False
    with "1.IH" "1.prems"
    have ih: "2 ^ (bit_length (n div 2) - 1) \<le> n div 2" "n div 2 < 2 ^ bit_length (n div 2)"
      by simp_all
    from "1.prems" have b: "bit_length n = Suc (bit_length (n div 2))"
      by (subst bit_length.simps) simp
    from False have "0 < bit_length (n div 2)"
      by (subst bit_length.simps) simp
    then have s: "Suc (bit_length (n div 2) - 1) = bit_length (n div 2)"
      by simp
    have "(2::nat) ^ bit_length (n div 2) = 2 * 2 ^ (bit_length (n div 2) - 1)"
      using s by (metis power_Suc)
    with ih(1) have lo: "2 ^ bit_length (n div 2) \<le> n"
      by linarith
    from ih(2) have hi: "n < 2 * 2 ^ bit_length (n div 2)"
      by linarith
    from lo hi show ?thesis
      by (simp add: b)
  qed
qed

lemma bit_length_pos: "0 < a \<Longrightarrow> 0 < bit_length a"
  by (subst bit_length.simps) simp

lemma bit_length_le: "0 < a \<Longrightarrow> a < 2 ^ k \<Longrightarrow> bit_length a \<le> k"
proof (rule ccontr)
  assume a: "0 < a" "a < 2 ^ k" and "\<not> bit_length a \<le> k"
  then have "k \<le> bit_length a - 1" by simp
  then have "(2::nat) ^ k \<le> 2 ^ (bit_length a - 1)"
    by (simp add: power_increasing)
  with bit_length_bounds [OF a(1)] a(2) show False by linarith
qed

lemma bit_length_gt: "2 ^ k \<le> a \<Longrightarrow> k < bit_length a"
proof (rule ccontr)
  assume a: "2 ^ k \<le> a" and "\<not> k < bit_length a"
  then have "(2::nat) ^ bit_length a \<le> 2 ^ k"
    by (simp add: power_increasing)
  moreover from a have "0 < a"
    by (cases "a = 0") simp_all
  ultimately show False
    using bit_length_bounds [of a] a(1) by linarith
qed

lemma floor_log2_int: "0 < a \<Longrightarrow> floor_log2 a 1 = int (bit_length a) - 1"
proof -
  assume a: "0 < a"
  from bit_length_pos [OF a] have n: "nat (int (bit_length a) - 1) = bit_length a - 1"
    "nat (- (int (bit_length a) - 1)) = 0"
    by simp_all
  have "floor_log2 a 1 =
     (if 1 * 2 ^ nat (int (bit_length a) - 1) \<le> a * 2 ^ nat (- (int (bit_length a) - 1))
      then int (bit_length a) - 1 else int (bit_length a) - 1 - 1)"
    by (simp add: floor_log2_def bit_length_numeral Let_def)
  with bit_length_bounds [OF a] show ?thesis
    unfolding n by simp
qed

lemma round_to_double_unfold:
  assumes "0 < a" and "floor_log2 a b = t" and "- 1022 \<le> t"
  shows "round_to_double s a b =
     (let m = rhe_div (a * 2 ^ nat (52 - t)) (b * 2 ^ nat (t - 52))
      in if 971 < t - 52 \<or> (t - 52 = 971 \<and> 2 ^ 53 \<le> m) then Infinity s
         else Finite s m (t - 52))"
proof -
  from assms(3) have mx: "max (t - 52) (- 1074) = t - 52"
    by simp
  have ng: "- (t - 52) = 52 - t"
    by simp
  from assms(1) have nz: "a \<noteq> 0"
    by simp
  show ?thesis
    unfolding round_to_double_def assms(2) Let_def mx ng
    by (simp only: nz if_False)
qed

lemma round_int_small:
  assumes "0 < a" "a < 2 ^ 53"
  shows "round_to_double s a 1
           = Finite s (a * 2 ^ (53 - bit_length a)) (int (bit_length a) - 53)"
proof -
  from assms have bl: "bit_length a \<le> 53"
    by (rule bit_length_le)
  define t where "t = int (bit_length a) - 1"
  have t: "floor_log2 a 1 = t" "- 1022 \<le> t"
    using floor_log2_int [OF assms(1)] by (simp_all add: t_def)
  from bl bit_length_pos [OF assms(1)]
  have n: "nat (52 - t) = 53 - bit_length a" "nat (t - 52) = 0" "t - 52 = int (bit_length a) - 53"
    "\<not> 971 < t - 52" "t - 52 \<noteq> 971"
    by (simp_all add: t_def)
  have "round_to_double s a 1 =
     (let m = rhe_div (a * 2 ^ nat (52 - t)) (1 * 2 ^ nat (t - 52))
      in if 971 < t - 52 \<or> (t - 52 = 971 \<and> 2 ^ 53 \<le> m) then Infinity s
         else Finite s m (t - 52))"
    by (rule round_to_double_unfold [OF assms(1) t])
  also have "\<dots> = Finite s (a * 2 ^ (53 - bit_length a)) (int (bit_length a) - 53)"
    unfolding Let_def n(1) n(2) using n(3,4,5) by simp
  finally show ?thesis .
qed

lemma scaled_exact:
  "scaled p (a * 2 ^ k) (- int k) = a * 10 ^ p"
proof -
  have e: "a * 2 ^ k * 10 ^ p * 2 ^ nat (- int k) = (a * 10 ^ p) * 2 ^ k"
    by simp
  have "rhe_div ((a * 10 ^ p) * 2 ^ k) (2 ^ k) = a * 10 ^ p"
    by (rule rhe_div_mult) simp
  then show ?thesis
    unfolding scaled_def e by simp
qed

lemma round_int_small_ex:
  assumes "0 < a" "a < 2 ^ 53"
  shows "\<exists>k. round_to_double s a 1 = Finite s (a * 2 ^ k) (- int k)"
proof -
  from assms have "bit_length a \<le> 53"
    by (rule bit_length_le)
  then have "int (bit_length a) - 53 = - int (53 - bit_length a)"
    by simp
  with round_int_small [OF assms, of s]
  have "round_to_double s a 1 = Finite s (a * 2 ^ (53 - bit_length a)) (- int (53 - bit_length a))"
    by (simp only:)
  then show ?thesis ..
qed

lemma get_first_digit_small_int:
  assumes "n \<noteq> 0" "\<bar>n\<bar> < 2 ^ 53"
  shows "get_first_digit (PInt n) = Some (leading_digit (nat \<bar>n\<bar>))"
proof -
  define a where "a = nat \<bar>n\<bar>"
  from assms(1) have a0: "0 < a"
    by (simp add: a_def)
  have "int a = \<bar>n\<bar>"
    by (simp add: a_def)
  with assms(2) have "int a < 2 ^ 53"
    by simp
  then have a1: "a < 2 ^ 53"
    by simp
  from round_int_small_ex [OF a0 a1, of False] obtain k
    where r: "round_to_double False a 1 = Finite False (a * 2 ^ k) (- int k)" ..
  have "float_of_int \<bar>n\<bar> = (case round_to_double False a 1 of
      Infinity s \<Rightarrow> Inl OverflowError | f \<Rightarrow> Inr f)"
    by (simp add: float_of_int_def a_def)
  then have f: "float_of_int \<bar>n\<bar> = Inr (Finite False (a * 2 ^ k) (- int k))"
    unfolding r by simp
  have s: "scaled 15 (a * 2 ^ k) (- int k) = a * 10 ^ 15"
    by (rule scaled_exact)
  from a0 have p: "a * 10 ^ 15 \<noteq> 0"
    by simp
  have "get_first_digit (PInt n) = Some (leading_digit (a * 10 ^ 15))"
    unfolding get_first_digit_int_as_float [OF assms(1) f] s using p by (simp only: if_False)
  also have "leading_digit (a * 10 ^ 15) = leading_digit a"
    by (rule leading_digit_scale [OF a0])
  finally show ?thesis
    unfolding a_def .
qed

lemma round_int_large:
  assumes "2 ^ 53 \<le> a" "a < 2 ^ 1024 - 2 ^ 970"
  shows "\<exists>m e. round_to_double s a 1 = Finite s m (int e) \<and> 0 < m"
proof -
  from assms(1) have pos: "0 < a"
    by (cases "a = 0") simp_all
  from assms(1) have lo: "53 < bit_length a"
    by (rule bit_length_gt)
  from assms(2) have "a < 2 ^ 1024" by simp
  with pos have hi: "bit_length a \<le> 1024"
    by (rule bit_length_le)
  define e where "e = bit_length a - 53"
  define t where "t = int (bit_length a) - 1"
  have t: "floor_log2 a 1 = t" "- 1022 \<le> t"
    using floor_log2_int [OF pos] by (simp_all add: t_def)
  from lo have n: "nat (52 - t) = 0" "nat (t - 52) = e"
    by (simp_all add: t_def e_def)
  from lo have te: "t - 52 = int e"
    by (simp add: t_def e_def)
  from lo hi have e971: "e \<le> 971"
    by (simp add: e_def)
  define m where "m = rhe_div a (2 ^ e)"
  have "(2::nat) ^ e \<le> 2 ^ (bit_length a - 1)"
    by (simp add: e_def power_increasing)
  with bit_length_bounds [OF pos] have "2 ^ e \<le> a" by linarith
  then have "0 < a div 2 ^ e"
    by (simp add: div_greater_zero_iff)
  with rhe_div_ge [of a "2 ^ e"] have m: "0 < m"
    unfolding m_def by linarith
  have big: "m < 2 ^ 53" if e: "e = 971"
  proof -
    from assms(2) have "2 * a < (2 * (2 ^ 53 - 1) + 1) * (2::nat) ^ 971"
      by simp
    then have "rhe_div a (2 ^ 971) \<le> 2 ^ 53 - 1"
      by (intro rhe_div_le) simp_all
    then show "m < 2 ^ 53"
      unfolding m_def e by simp
  qed
  from e971 big have ov: "\<not> (971 < int e \<or> (int e = 971 \<and> 2 ^ 53 \<le> m))"
    by auto
  have "round_to_double s a 1 =
     (let m = rhe_div (a * 2 ^ nat (52 - t)) (1 * 2 ^ nat (t - 52))
      in if 971 < t - 52 \<or> (t - 52 = 971 \<and> 2 ^ 53 \<le> m) then Infinity s
         else Finite s m (t - 52))"
    by (rule round_to_double_unfold [OF pos t])
  also have "\<dots> = (if 971 < int e \<or> (int e = 971 \<and> 2 ^ 53 \<le> m) then Infinity s
         else Finite s m (int e))"
    unfolding Let_def n te by (simp only: m_def power_0 mult_1 mult_1_right nat_int)
  also have "\<dots> = Finite s m (int e)"
    using ov by (simp only: if_False)
  finally show ?thesis
    using m by blast
qed

lemma scaled_nonneg_exp: "scaled p m (int e) = m * 10 ^ p * 2 ^ e"
  by (simp add: scaled_def)

lemma get_first_digit_int:
  assumes "n \<noteq> 0" "\<bar>n\<bar> < 2 ^ 1024 - 2 ^ 970"
  shows "\<exists>d. get_first_digit (PInt n) = Some d \<and> 1 \<le> d \<and> d \<le> 9"
proof (cases "\<bar>n\<bar> < 2 ^ 53")
  case True
  from assms(1) have "0 < nat \<bar>n\<bar>" by simp
  with get_first_digit_small_int [OF assms(1) True] leading_digit_range [of "nat \<bar>n\<bar>"]
  show ?thesis by simp
next
  case False
  define a where "a = nat \<bar>n\<bar>"
  have ia: "int a = \<bar>n\<bar>"
    by (simp add: a_def)
  from False ia have "2 ^ 53 \<le> int a"
    by simp
  then have lo: "2 ^ 53 \<le> a"
    by simp
  from assms(2) ia have "int a < 2 ^ 1024 - 2 ^ 970"
    by simp
  then have hi: "a < 2 ^ 1024 - 2 ^ 970"
    by simp
  from round_int_large [OF lo hi, of False] obtain m e
    where r: "round_to_double False a 1 = Finite False m (int e)" and m: "0 < m"
    by blast
  have "float_of_int \<bar>n\<bar> = (case round_to_double False a 1 of
      Infinity s \<Rightarrow> Inl OverflowError | f \<Rightarrow> Inr f)"
    by (simp add: float_of_int_def a_def)
  then have f: "float_of_int \<bar>n\<bar> = Inr (Finite False m (int e))"
    unfolding r by simp
  from m have q: "0 < scaled 15 m (int e)"
    by (simp add: scaled_nonneg_exp)
  then have "scaled 15 m (int e) \<noteq> 0"
    by simp
  then have "get_first_digit (PInt n) = Some (leading_digit (scaled 15 m (int e)))"
    unfolding get_first_digit_int_as_float [OF assms(1) f] by (simp only: if_False)
  with leading_digit_range [OF q] show ?thesis
    by simp
qed

section \<open>The value of a float and the threshold of the format\<close>

lemma powi_two: "(2::rat) powi e = 2 ^ nat e / 2 ^ nat (- e)"
proof (cases "0 \<le> e")
  case True
  then show ?thesis
    by (simp add: power_int_def)
next
  case False
  then show ?thesis
    by (simp add: power_int_def power_inverse inverse_eq_divide power_one_over)
qed

lemma float_val_abs: "\<bar>float_val (Finite s m e)\<bar> = of_nat m * 2 powi e"
  by (simp add: float_val_def abs_mult)

lemma scaled_pos_val:
  "0 < scaled 15 m e \<longleftrightarrow> 5 / 10 ^ 16 < \<bar>float_val (Finite s m e)\<bar>"
proof -
  define P :: nat where "P = 2 ^ nat e"
  define N :: nat where "N = 2 ^ nat (- e)"
  have N: "0 < N"
    by (simp add: N_def)
  have v: "\<bar>float_val (Finite s m e)\<bar> = of_nat (m * P) / of_nat N"
    by (simp add: float_val_abs powi_two P_def N_def)
  have "5 / 10 ^ 16 < (of_nat (m * P) / of_nat N :: rat) \<longleftrightarrow>
        (of_nat (5 * N) :: rat) < of_nat (10 ^ 16 * (m * P))"
    using N by (simp add: field_simps)
  also have "\<dots> \<longleftrightarrow> 5 * N < 10 ^ 16 * (m * P)"
    by (rule of_nat_less_iff)
  also have "\<dots> \<longleftrightarrow> N < 2 * (m * 10 ^ 15 * P)"
    by (simp add: ac_simps)
  finally show ?thesis
    unfolding v scaled_pos_iff P_def N_def by simp
qed

lemma tiny_eval:
  "round_to_double False 1 (10 ^ 16) = Finite False 8112963841460668 (- 106)"
  by (simp add: eval_simps)

lemma tiny_digit: "get_first_digit (PFloat (Finite False 8112963841460668 (- 106))) = None"
  by (simp add: eval_simps)

lemma tiny_val: "float_val (Finite False 8112963841460668 (- 106)) = 8112963841460668 / 2 ^ 106"
  by (simp add: float_val_def powi_two)

lemma small_val: "float_val (Finite False 5188146770730811 (- 60)) = 5188146770730811 / 2 ^ 60"
  by (simp add: float_val_def powi_two)

lemma cmp1: "(5::rat) / 10 ^ 16 < \<bar>5188146770730811 / 2 ^ 60\<bar>"
  by simp

lemma cmp2: "\<bar>8112963841460668 / 2 ^ 106 :: rat\<bar> \<le> 5 / 10 ^ 16"
  by simp

section \<open>Which numbers have a leading digit\<close>

text \<open>
  Claim C1 as stated fails.  The float \<open>1e-16\<close> is finite and not zero, yet its rendering
  with 15 decimals is \<open>0.000000000000000\<close>, nothing is left after the zeros are
  stripped, and the guard \<open>if not s\<close> returns \<open>None\<close>.
\<close>

theorem tiny_float_has_no_digit:
  "round_to_double False 1 (10 ^ 16) = Finite False 8112963841460668 (- 106)
   \<and> is_double (Finite False 8112963841460668 (- 106))
   \<and> float_val (Finite False 8112963841460668 (- 106)) \<noteq> 0
   \<and> get_first_digit (PFloat (Finite False 8112963841460668 (- 106))) = None"
  using tiny_eval tiny_digit by (simp add: tiny_val is_double_def)

text \<open>
  Claim C1, amended.  A finite float has a leading digit from 1 to 9 exactly when its
  magnitude exceeds \<open>5 * 10^-16\<close>, that is, when it does not round to zero at 15
  decimals; a float of magnitude at most \<open>5 * 10^-16\<close> has none.  A Python \<open>int\<close> other
  than 0 has a leading digit from 1 to 9 whenever its magnitude is below
  \<open>2^1024 - 2^970\<close>, the integers that \<open>float\<close> converts without overflow.
\<close>

theorem get_first_digit_of_number:
  "(5 / 10 ^ 16 < \<bar>float_val (Finite s m e)\<bar> \<longrightarrow>
      (\<exists>d. get_first_digit (PFloat (Finite s m e)) = Some d \<and> 1 \<le> d \<and> d \<le> 9))
   \<and> (\<bar>float_val (Finite s m e)\<bar> \<le> 5 / 10 ^ 16 \<longrightarrow>
      get_first_digit (PFloat (Finite s m e)) = None)
   \<and> (n \<noteq> 0 \<and> \<bar>n\<bar> < 2 ^ 1024 - 2 ^ 970 \<longrightarrow>
      (\<exists>d. get_first_digit (PInt n) = Some d \<and> 1 \<le> d \<and> d \<le> 9))"
proof -
  have A: "5 / 10 ^ 16 < \<bar>float_val (Finite s m e)\<bar> \<longrightarrow>
      (\<exists>d. get_first_digit (PFloat (Finite s m e)) = Some d \<and> 1 \<le> d \<and> d \<le> 9)"
  proof
    assume "5 / 10 ^ 16 < \<bar>float_val (Finite s m e)\<bar>"
    then have q: "0 < scaled 15 m e"
      unfolding scaled_pos_val [of m e s] .
    then have "get_first_digit (PFloat (Finite s m e)) = Some (leading_digit (scaled 15 m e))"
      by (simp add: get_first_digit_finite)
    with leading_digit_range [OF q]
    show "\<exists>d. get_first_digit (PFloat (Finite s m e)) = Some d \<and> 1 \<le> d \<and> d \<le> 9"
      by simp
  qed
  have B: "\<bar>float_val (Finite s m e)\<bar> \<le> 5 / 10 ^ 16 \<longrightarrow>
      get_first_digit (PFloat (Finite s m e)) = None"
  proof
    assume "\<bar>float_val (Finite s m e)\<bar> \<le> 5 / 10 ^ 16"
    then have "\<not> 5 / 10 ^ 16 < \<bar>float_val (Finite s m e)\<bar>"
      by simp
    then have "\<not> 0 < scaled 15 m e"
      unfolding scaled_pos_val [of m e s] .
    then show "get_first_digit (PFloat (Finite s m e)) = None"
      by (simp add: get_first_digit_finite)
  qed
  have C: "n \<noteq> 0 \<and> \<bar>n\<bar> < 2 ^ 1024 - 2 ^ 970 \<longrightarrow>
      (\<exists>d. get_first_digit (PInt n) = Some d \<and> 1 \<le> d \<and> d \<le> 9)"
    using get_first_digit_int [of n] by blast
  show ?thesis
    by (rule conjI [OF A conjI [OF B C]])
qed

lemma small_digit: "get_first_digit (PFloat (Finite False 5188146770730811 (- 60))) = Some 4"
  by (simp add: eval_simps)

lemma small_eval: "round_to_double False 45 10000 = Finite False 5188146770730811 (- 60)"
  by (simp add: eval_simps)

lemma int_digit: "get_first_digit (PInt (- 123)) = Some 1"
  by (simp add: eval_simps)

theorem get_first_digit_of_number_witness:
  "round_to_double False 45 10000 = Finite False 5188146770730811 (- 60)
   \<and> 5 / 10 ^ 16 < \<bar>float_val (Finite False 5188146770730811 (- 60))\<bar>
   \<and> get_first_digit (PFloat (Finite False 5188146770730811 (- 60))) = Some 4
   \<and> \<bar>float_val (Finite False 8112963841460668 (- 106))\<bar> \<le> 5 / 10 ^ 16
   \<and> get_first_digit (PFloat (Finite False 8112963841460668 (- 106))) = None
   \<and> (- 123 :: int) \<noteq> 0 \<and> \<bar>- 123 :: int\<bar> < 2 ^ 1024 - 2 ^ 970
   \<and> get_first_digit (PInt (- 123)) = Some 1"
proof -
  have 1: "5 / 10 ^ 16 < \<bar>float_val (Finite False 5188146770730811 (- 60))\<bar>"
    unfolding small_val by simp
  have 2: "\<bar>float_val (Finite False 8112963841460668 (- 106))\<bar> \<le> 5 / 10 ^ 16"
    unfolding tiny_val by simp
  have 3: "(- 123 :: int) \<noteq> 0 \<and> \<bar>- 123 :: int\<bar> < 2 ^ 1024 - 2 ^ 970"
    by simp
  from 1 2 3
    get_first_digit_of_number [of False 5188146770730811 "- 60" "- 123"]
    get_first_digit_of_number [of False 8112963841460668 "- 106" "- 123"]
  show ?thesis
    using small_digit small_eval int_digit by simp
qed

section \<open>Scaling by a power of ten\<close>









section \<open>Rounding error of a division\<close>

lemma rhe_div_error:
  assumes "0 < b"
  shows "\<bar>(of_nat (rhe_div a b) :: rat) - of_nat a / of_nat b\<bar> \<le> 1 / 2"
proof -
  define q where "q = a div b"
  define r where "r = a mod b"
  define x :: rat where "x = of_nat r / of_nat b"
  have a: "a = q * b + r"
    by (simp add: q_def r_def)
  from assms have b: "(0::rat) < of_nat b"
    by simp
  have ab: "(of_nat a :: rat) / of_nat b = of_nat q + x"
    unfolding a x_def using b by (simp add: add_divide_distrib)
  have x0: "0 \<le> x"
    unfolding x_def by simp
  show ?thesis
  proof (cases "b < 2 * r \<or> (2 * r = b \<and> odd q)")
    case True
    then have v: "rhe_div a b = q + 1"
      by (simp add: rhe_div_def Let_def q_def r_def)
    from assms have "r < b"
      by (simp add: r_def)
    then have "(of_nat r :: rat) < of_nat b"
      by (simp only: of_nat_less_iff)
    then have x1: "x < 1"
      unfolding x_def using b by (simp add: divide_less_eq)
    from True have "b \<le> 2 * r" by auto
    then have "(of_nat b :: rat) \<le> of_nat (2 * r)"
      by (simp only: of_nat_le_iff)
    then have "1 \<le> 2 * x"
      unfolding x_def using b by (simp add: le_divide_eq)
    with x1 show ?thesis
      unfolding v ab by simp
  next
    case False
    then have v: "rhe_div a b = q"
      by (simp add: rhe_div_def Let_def q_def r_def)
    from False have "2 * r \<le> b" by auto
    then have "(of_nat (2 * r) :: rat) \<le> of_nat b"
      by (simp only: of_nat_le_iff)
    then have "2 * x \<le> 1"
      unfolding x_def using b by (simp add: divide_le_eq)
    with x0 show ?thesis
      unfolding v ab by simp
  qed
qed

lemma powi_two_pos: "0 < (2::rat) powi e"
  by simp

lemma floor_log2_test:
  assumes "0 < b"
  shows "b * 2 ^ nat d \<le> a * 2 ^ nat (- d) \<longleftrightarrow> (2::rat) powi d \<le> of_nat a / of_nat b"
proof -
  have "(2::rat) powi d \<le> of_nat a / of_nat b
        \<longleftrightarrow> (of_nat (b * 2 ^ nat d) :: rat) \<le> of_nat (a * 2 ^ nat (- d))"
    using assms by (simp add: powi_two field_simps)
  also have "\<dots> \<longleftrightarrow> b * 2 ^ nat d \<le> a * 2 ^ nat (- d)"
    by (rule of_nat_le_iff)
  finally show ?thesis ..
qed

lemma of_nat_bit_length:
  assumes "0 < a"
  shows "(2::rat) powi (int (bit_length a) - 1) \<le> of_nat a"
    and "(of_nat a :: rat) < 2 powi int (bit_length a)"
proof -
  from bit_length_pos [OF assms] obtain k where k: "bit_length a = Suc k"
    by (cases "bit_length a") auto
  have "(2::rat) powi (int (Suc k) - 1) = 2 powi int k"
    by simp
  also have "\<dots> = of_nat (2 ^ k)"
    by simp
  also have "\<dots> \<le> of_nat a"
    using bit_length_bounds [OF assms] unfolding k by (simp only: of_nat_le_iff diff_Suc_1)
  finally show "(2::rat) powi (int (bit_length a) - 1) \<le> of_nat a"
    unfolding k .
  have "(of_nat a :: rat) < of_nat (2 ^ bit_length a)"
    using bit_length_bounds [OF assms] by (simp only: of_nat_less_iff)
  also have "\<dots> = 2 powi int (bit_length a)"
    by simp
  finally show "(of_nat a :: rat) < 2 powi int (bit_length a)" .
qed

lemma floor_log2_bounds:
  assumes "0 < a" "0 < b"
  shows "(2::rat) powi floor_log2 a b \<le> of_nat a / of_nat b"
    and "(of_nat a :: rat) / of_nat b < 2 powi (floor_log2 a b + 1)"
proof -
  define d where "d = int (bit_length a) - int (bit_length b)"
  define r :: rat where "r = of_nat a / of_nat b"
  from assms have b: "(0::rat) < of_nat b" by simp
  have up: "r < 2 powi (d + 1)"
  proof -
    have "of_nat a < (2::rat) powi int (bit_length a)"
      by (rule of_nat_bit_length [OF assms(1)])
    also have "int (bit_length a) = (d + 1) + (int (bit_length b) - 1)"
      by (simp add: d_def)
    also have "(2::rat) powi ((d + 1) + (int (bit_length b) - 1))
        = 2 powi (d + 1) * 2 powi (int (bit_length b) - 1)"
      by (rule power_int_add) simp
    also have "\<dots> \<le> 2 powi (d + 1) * of_nat b"
      using of_nat_bit_length(1) [OF assms(2)] by (intro mult_left_mono) simp_all
    finally show ?thesis
      using b by (simp add: r_def field_simps)
  qed
  have lo: "2 powi (d - 1) < r"
  proof -
    have "2 powi (d - 1) * (of_nat b :: rat) < 2 powi (d - 1) * 2 powi int (bit_length b)"
      using of_nat_bit_length(2) [OF assms(2)] by (intro mult_strict_left_mono) simp_all
    also have "\<dots> = 2 powi ((d - 1) + int (bit_length b))"
      by (rule power_int_add [symmetric]) simp
    also have "(d - 1) + int (bit_length b) = int (bit_length a) - 1"
      by (simp add: d_def)
    also have "(2::rat) powi (int (bit_length a) - 1) \<le> of_nat a"
      by (rule of_nat_bit_length [OF assms(1)])
    finally show ?thesis
      using b by (simp add: r_def field_simps)
  qed
  have f: "floor_log2 a b = (if 2 powi d \<le> r then d else d - 1)"
    unfolding floor_log2_def Let_def d_def [symmetric] floor_log2_test [OF assms(2)] r_def ..
  show "(2::rat) powi floor_log2 a b \<le> of_nat a / of_nat b"
    using lo unfolding f r_def [symmetric] by simp
  show "(of_nat a :: rat) / of_nat b < 2 powi (floor_log2 a b + 1)"
    using up unfolding f r_def [symmetric] by auto
qed

lemma powi_le_one_exp:
  assumes "(2::rat) powi t \<le> 1"
  shows "t \<le> 0"
proof (rule ccontr)
  assume "\<not> t \<le> 0"
  then have "1 \<le> t" by simp
  then have "(2::rat) powi 1 \<le> 2 powi t"
    by (rule power_int_increasing) simp
  with assms show False by simp
qed

lemma powi_less_exp:
  assumes "(2::rat) powi l < 2 powi u"
  shows "l < u"
proof (rule ccontr)
  assume "\<not> l < u"
  then have "u \<le> l" by simp
  then have "(2::rat) powi u \<le> 2 powi l"
    by (rule power_int_increasing) simp
  with assms show False by simp
qed

lemma round_to_double_error:
  assumes "0 < a" "0 < b" "a \<le> b" "b \<le> a * 2 ^ 1022"
  shows "\<exists>m e. round_to_double s a b = Finite s m e
           \<and> \<bar>of_nat m * 2 powi e - (of_nat a :: rat) / of_nat b\<bar> \<le> of_nat a / of_nat b / 2 ^ 53"
proof -
  define r :: rat where "r = of_nat a / of_nat b"
  define t where "t = floor_log2 a b"
  from assms(1,2) have a: "(0::rat) < of_nat a" and b: "(0::rat) < of_nat b"
    by simp_all
  have tb: "2 powi t \<le> r" "r < 2 powi (t + 1)"
    unfolding t_def r_def by (rule floor_log2_bounds [OF assms(1,2)])+
  from assms(3) have "(of_nat a :: rat) \<le> of_nat b"
    by (simp only: of_nat_le_iff)
  then have r1: "r \<le> 1"
    unfolding r_def using b by (simp add: divide_le_eq)
  from assms(4) have "(of_nat b :: rat) \<le> of_nat (a * 2 ^ 1022)"
    by (simp only: of_nat_le_iff)
  then have "(of_nat b :: rat) \<le> of_nat a * 2 ^ 1022"
    by simp
  then have "1 / 2 ^ 1022 \<le> r"
    unfolding r_def using b by (simp add: field_simps)
  moreover have "(2::rat) powi (- 1022) = 1 / 2 ^ 1022"
    by (simp add: power_int_minus_divide)
  ultimately have "(2::rat) powi (- 1022) < 2 powi (t + 1)"
    using tb(2) by linarith
  then have "- 1022 < t + 1"
    by (rule powi_less_exp)
  then have t1: "- 1022 \<le> t"
    by simp
  from tb(1) r1 have "(2::rat) powi t \<le> 1"
    by linarith
  then have t0: "t \<le> 0"
    by (rule powi_le_one_exp)
  define m where "m = rhe_div (a * 2 ^ nat (52 - t)) b"
  from t0 have n: "nat (t - 52) = 0"
    by simp
  from t0 have ov: "\<not> (971 < t - 52 \<or> (t - 52 = 971 \<and> 2 ^ 53 \<le> m))"
    by simp
  have "round_to_double s a b =
     (let m = rhe_div (a * 2 ^ nat (52 - t)) (b * 2 ^ nat (t - 52))
      in if 971 < t - 52 \<or> (t - 52 = 971 \<and> 2 ^ 53 \<le> m) then Infinity s
         else Finite s m (t - 52))"
    by (rule round_to_double_unfold [OF assms(1) t_def [symmetric] t1])
  also have "\<dots> = (if 971 < t - 52 \<or> (t - 52 = 971 \<and> 2 ^ 53 \<le> m) then Infinity s
         else Finite s m (t - 52))"
    unfolding Let_def n by (simp only: m_def power_0 mult_1_right)
  also have "\<dots> = Finite s m (t - 52)"
    using ov by (simp only: if_False)
  finally have res: "round_to_double s a b = Finite s m (t - 52)" .
  define w :: rat where "w = 2 powi (t - 52)"
  define x :: rat where "x = of_nat (a * 2 ^ nat (52 - t)) / of_nat b"
  have w: "0 < w"
    by (simp add: w_def)
  from t0 have "int (nat (52 - t)) = 52 - t"
    by simp
  then have p: "(2::rat) ^ nat (52 - t) = 2 powi (52 - t)"
    by (metis power_int_of_nat)
  have "w * 2 powi (52 - t) = 2 powi ((t - 52) + (52 - t))"
    unfolding w_def by (rule power_int_add [symmetric]) simp
  also have "(t - 52) + (52 - t) = 0"
    by simp
  finally have "w * 2 powi (52 - t) = 1"
    by simp
  then have w1: "w * 2 ^ nat (52 - t) = 1"
    unfolding p .
  have "w * x = (w * 2 ^ nat (52 - t)) * r"
    by (simp add: x_def r_def)
  then have wx: "w * x = r"
    unfolding w1 by simp
  have "(2::rat) powi t = 2 powi ((t - 52) + 52)"
    by simp
  also have "\<dots> = w * 2 powi 52"
    unfolding w_def by (rule power_int_add) simp
  finally have w52: "2 powi t = w * 2 ^ 52"
    by simp
  have e: "\<bar>of_nat m - x\<bar> \<le> 1 / 2"
    unfolding m_def x_def by (rule rhe_div_error [OF assms(2)])
  have "of_nat m * w - r = w * (of_nat m - x)"
    by (simp add: wx algebra_simps)
  then have "\<bar>of_nat m * w - r\<bar> = w * \<bar>of_nat m - x\<bar>"
    using w by (simp add: abs_mult)
  also have "\<dots> \<le> w * (1 / 2)"
    using e w by (intro mult_left_mono) simp_all
  also have "\<dots> = (w * 2 ^ 52) / 2 ^ 53"
    by simp
  also have "\<dots> \<le> r / 2 ^ 53"
    using tb(1) unfolding w52 by (intro divide_right_mono) simp_all
  finally have "\<bar>of_nat m * 2 powi (t - 52) - r\<bar> \<le> r / 2 ^ 53"
    unfolding w_def .
  with res show ?thesis
    unfolding r_def by blast
qed

lemma double_of_nat_zero: "double_of_nat 0 = Finite False 0 0"
  by (simp add: double_of_nat_def round_to_double_def)

lemma np_true_divide_zero:
  assumes "0 < n" "n < 2 ^ 53"
  shows "np_true_divide 0 n = Finite False 0 0"
proof -
  from round_int_small_ex [OF assms, of False] obtain k
    where "round_to_double False n 1 = Finite False (n * 2 ^ k) (- int k)" ..
  with assms(1) show ?thesis
    by (simp add: np_true_divide_def double_of_nat_def round_scaled_def round_to_double_def)
qed

lemma np_true_divide_error:
  assumes "0 < c" "c \<le> n" "n < 2 ^ 53"
  shows "\<exists>m e. np_true_divide c n = Finite False m e
           \<and> \<bar>float_val (Finite False m e) - (of_nat c :: rat) / of_nat n\<bar>
               \<le> of_nat c / of_nat n / 2 ^ 53"
proof -
  from assms have n: "0 < n" and c: "c < 2 ^ 53"
    by simp_all
  from round_int_small_ex [OF assms(1) c, of False] obtain k1
    where k1: "round_to_double False c 1 = Finite False (c * 2 ^ k1) (- int k1)" ..
  from round_int_small_ex [OF n assms(3), of False] obtain k2
    where k2: "round_to_double False n 1 = Finite False (n * 2 ^ k2) (- int k2)" ..
  define K where "K = max k1 k2"
  have e: "nat (- int k1 - - int k2) = k2 - k1" "nat (- int k2 - - int k1) = k1 - k2"
    by simp_all
  have A: "c * 2 ^ k1 * 2 ^ (k2 - k1) = c * 2 ^ K"
    by (simp add: K_def max_def power_add [symmetric])
  have B: "n * 2 ^ k2 * 2 ^ (k1 - k2) = n * 2 ^ K"
    by (simp add: K_def max_def power_add [symmetric])
  from n have nz: "n * 2 ^ k2 \<noteq> 0"
    by simp
  have "np_true_divide c n
        = fdiv (Finite False (c * 2 ^ k1) (- int k1)) (Finite False (n * 2 ^ k2) (- int k2))"
    unfolding np_true_divide_def double_of_nat_def k1 k2 ..
  also have "\<dots> = round_scaled False (c * 2 ^ k1) (- int k1) (n * 2 ^ k2) (- int k2)"
    using nz by simp
  also have "\<dots> = round_to_double False (c * 2 ^ K) (n * 2 ^ K)"
    unfolding round_scaled_def e A B ..
  finally have q: "np_true_divide c n = round_to_double False (c * 2 ^ K) (n * 2 ^ K)" .
  have h: "0 < c * 2 ^ K" "0 < n * 2 ^ K" "c * 2 ^ K \<le> n * 2 ^ K"
    using assms(1,2) n by simp_all
  from assms(1) have "1 * (2::nat) ^ 53 \<le> c * 2 ^ 53"
    by (intro mult_le_mono1) simp
  moreover have "(2::nat) ^ 53 \<le> 2 ^ 1022"
    by (rule power_increasing) simp_all
  then have "c * (2::nat) ^ 53 \<le> c * 2 ^ 1022"
    by (rule mult_le_mono2)
  ultimately have "n \<le> c * 2 ^ 1022"
    using assms(3) by linarith
  then have "n * 2 ^ K \<le> (c * 2 ^ 1022) * 2 ^ K"
    by (rule mult_le_mono1)
  then have h4: "n * 2 ^ K \<le> c * 2 ^ K * 2 ^ 1022"
    by (simp only: mult.assoc mult.commute [of "2 ^ 1022"])
  from round_to_double_error [OF h h4, of False] obtain m e
    where r: "round_to_double False (c * 2 ^ K) (n * 2 ^ K) = Finite False m e"
      and b: "\<bar>of_nat m * 2 powi e - (of_nat (c * 2 ^ K) :: rat) / of_nat (n * 2 ^ K)\<bar>
                \<le> of_nat (c * 2 ^ K) / of_nat (n * 2 ^ K) / 2 ^ 53"
    by blast
  have "(of_nat (c * 2 ^ K) :: rat) / of_nat (n * 2 ^ K) = of_nat c / of_nat n"
    by simp
  with b have "\<bar>of_nat m * 2 powi e - (of_nat c :: rat) / of_nat n\<bar> \<le> of_nat c / of_nat n / 2 ^ 53"
    by (simp only:)
  moreover have "float_val (Finite False m e) = of_nat m * 2 powi e"
    by (simp add: float_val_def)
  ultimately show ?thesis
    using q r by simp
qed

lemma np_true_divide_close:
  assumes "c \<le> n" "0 < n" "n < 2 ^ 53"
  shows "(\<exists>m e. np_true_divide c n = Finite False m e)
         \<and> \<bar>float_val (np_true_divide c n) - (of_nat c :: rat) / of_nat n\<bar>
               \<le> of_nat c / of_nat n / 2 ^ 53"
proof (cases "c = 0")
  case True
  with np_true_divide_zero [OF assms(2,3)] show ?thesis
    by (simp add: float_val_def)
next
  case False
  then have "0 < c" by simp
  from np_true_divide_error [OF this assms(1,3)] show ?thesis
    by auto
qed

section \<open>The frequency table\<close>

lemma digits_set: "{1..9::nat} = set [1..<10]"
  by auto

lemma dom_digit_counts:
  assumes "\<And>d. d \<in> set ds \<Longrightarrow> 1 \<le> d \<and> d < 10"
  shows "dom (digit_counts ds) = {1..9}"
proof -
  have "digit_counts ds d \<noteq> None \<longleftrightarrow> 1 \<le> d \<and> d \<le> 9" for d
    using assms [of d] by (auto simp: digit_counts_apply)
  then show ?thesis
    by (auto simp: dom_def)
qed

lemma sum_counts_rat:
  fixes ds :: "nat list"
  assumes "\<And>d. d \<in> set ds \<Longrightarrow> 1 \<le> d \<and> d < 10" and "ds \<noteq> []"
  shows "(\<Sum>d = 1..9. (of_nat (count_list ds d) :: rat) / of_nat (length ds)) = 1"
proof -
  have "sum (count_list ds) {1..9} = sum_list (map (count_list ds) [1..<10])"
    unfolding digits_set by (rule sum_list_distinct_conv_sum_set [symmetric]) simp
  also have "\<dots> = length ds"
    by (rule sum_counts_digits) (rule assms(1))
  finally have s: "sum (count_list ds) {1..9} = length ds" .
  have "(\<Sum>d = 1..9. (of_nat (count_list ds d) :: rat) / of_nat (length ds))
          = of_nat (sum (count_list ds) {1..9}) / of_nat (length ds)"
    by (simp only: sum_divide_distrib of_nat_sum)
  also have "\<dots> = 1"
    unfolding s using assms(2) by simp
  finally show ?thesis .
qed

lemma observed_sum_close:
  fixes ds :: "nat list"
  assumes "\<And>d. d \<in> set ds \<Longrightarrow> 1 \<le> d \<and> d < 10" and "ds \<noteq> []" and "length ds < 2 ^ 53"
  shows "\<bar>(\<Sum>d = 1..9. float_val (np_true_divide (count_list ds d) (length ds))) - 1\<bar>
           \<le> 1 / 2 ^ 53"
proof -
  define n where "n = length ds"
  define v where "v d = float_val (np_true_divide (count_list ds d) n)" for d
  define r :: "nat \<Rightarrow> rat" where "r d = of_nat (count_list ds d) / of_nat n" for d
  from assms(2) have n: "0 < n"
    by (simp add: n_def)
  have close: "\<bar>v d - r d\<bar> \<le> r d / 2 ^ 53" for d
    unfolding v_def r_def
    using np_true_divide_close [of "count_list ds d" n] n assms(3) count_le_length [of ds d]
    by (simp add: n_def)
  have one: "sum r {1..9} = 1"
    unfolding r_def n_def by (rule sum_counts_rat [OF assms(1,2)])
  have "sum v {1..9} - 1 = (\<Sum>d = 1..9. v d - r d)"
    unfolding sum_subtractf one ..
  then have "\<bar>sum v {1..9} - 1\<bar> \<le> (\<Sum>d = 1..9. \<bar>v d - r d\<bar>)"
    by (simp only: sum_abs)
  also have "\<dots> \<le> (\<Sum>d = 1..9. r d / 2 ^ 53)"
    by (rule sum_mono) (rule close)
  also have "\<dots> = sum r {1..9} / 2 ^ 53"
    by (simp only: sum_divide_distrib)
  finally show ?thesis
    unfolding one v_def n_def .
qed

text \<open>
  Claim C3.  When the chosen column has at least one valid digit (and fewer than \<open>2^53\<close>
  of them, so that every count is held exactly by a double), the table of counts has an
  entry for each digit from 1 to 9 and for no other key, the entry being the number of
  times the digit occurs (0 when it never does); the table of observed frequencies has the
  same nine keys, each frequency the finite double that NumPy's division of the count by
  the total gives; and the nine frequencies add up to 1 to within \<open>2^-53\<close>.
\<close>

theorem frequency_table:
  assumes "first_digits col \<noteq> []" and "length (first_digits col) < 2 ^ 53"
  shows "dom (digit_counts (first_digits col)) = {1..9}
    \<and> dom (actual_freq (digit_counts (first_digits col)) (length (first_digits col))) = {1..9}
    \<and> (\<forall>d \<in> {1..9}.
          digit_counts (first_digits col) d = Some (count_list (first_digits col) d)
          \<and> actual_freq (digit_counts (first_digits col)) (length (first_digits col)) d
              = Some (np_true_divide (count_list (first_digits col) d) (length (first_digits col)))
          \<and> (\<exists>m e. np_true_divide (count_list (first_digits col) d) (length (first_digits col))
                      = Finite False m e))
    \<and> \<bar>(\<Sum>d = 1..9. float_val
            (np_true_divide (count_list (first_digits col) d) (length (first_digits col)))) - 1\<bar>
        \<le> 1 / 2 ^ 53"
proof -
  define ds where "ds = first_digits col"
  have range: "\<And>d. d \<in> set ds \<Longrightarrow> 1 \<le> d \<and> d < 10"
    unfolding ds_def by (rule first_digits_range)
  from assms have ne: "ds \<noteq> []" and len: "length ds < 2 ^ 53"
    by (simp_all add: ds_def)
  have d1: "dom (digit_counts ds) = {1..9}"
    by (rule dom_digit_counts [OF range])
  have "dom (actual_freq (digit_counts ds) (length ds)) = dom (digit_counts ds)"
    by (auto simp: actual_freq_def dom_def)
  with d1 have d2: "dom (actual_freq (digit_counts ds) (length ds)) = {1..9}"
    by simp
  have d3: "digit_counts ds d = Some (count_list ds d)
      \<and> actual_freq (digit_counts ds) (length ds) d
          = Some (np_true_divide (count_list ds d) (length ds))
      \<and> (\<exists>m e. np_true_divide (count_list ds d) (length ds) = Finite False m e)"
    if "d \<in> {1..9}" for d
  proof -
    from that have "1 \<le> d" "d < 10"
      by simp_all
    then have "digit_counts ds d = Some (count_list ds d)"
      by (rule digit_counts_digit)
    moreover from ne have "0 < length ds"
      by simp
    from np_true_divide_close [OF count_le_length this len, of d]
    have "\<exists>m e. np_true_divide (count_list ds d) (length ds) = Finite False m e"
      by blast
    ultimately show ?thesis
      by (simp add: actual_freq_def)
  qed
  have d4: "\<bar>(\<Sum>d = 1..9. float_val (np_true_divide (count_list ds d) (length ds))) - 1\<bar>
        \<le> 1 / 2 ^ 53"
    by (rule observed_sum_close [OF range ne len])
  from d1 d2 d3 d4 show ?thesis
    unfolding ds_def by blast
qed

theorem frequency_table_witness:
  "first_digits (scenario_column (PFloat NaN)) \<noteq> []
   \<and> length (first_digits (scenario_column (PFloat NaN))) < 2 ^ 53
   \<and> dom (digit_counts (first_digits (scenario_column (PFloat NaN)))) = {1..9}
   \<and> \<bar>(\<Sum>d = 1..9. float_val
           (np_true_divide (count_list (first_digits (scenario_column (PFloat NaN))) d)
              (length (first_digits (scenario_column (PFloat NaN)))))) - 1\<bar>
        \<le> 1 / 2 ^ 53"
proof -
  have 1: "first_digits (scenario_column (PFloat NaN)) \<noteq> []"
    by (simp add: scenario_digits)
  have 2: "length (first_digits (scenario_column (PFloat NaN))) < 2 ^ 53"
    by (simp add: scenario_digits)
  from 1 2 frequency_table [OF 1 2] show ?thesis
    by blast
qed

end
